theory Spec2Isabelle
  imports Main "HOL-Library.Word" "HOL-Library.Sublist" "HOL-Library.AList"
begin

section \<open>JavaScript strings\<close>

text \<open>
  A JavaScript string is a sequence of UTF-16 code units. \<open>str\<close> turns an ASCII literal
  of the theory into such a sequence.
\<close>

type_synonym jsstring = "16 word list"

definition str :: "string \<Rightarrow> jsstring" where
  "str s = map of_char s"

text \<open>
  \<open>String.prototype.trim\<close> strips WhiteSpace and LineTerminator code points from both
  ends: TAB, LF, VT, FF, CR, SPACE, NBSP, U+1680, U+2000..U+200A, U+2028, U+2029, U+202F,
  U+205F, U+3000 and U+FEFF. All of them are single code units.
\<close>

definition is_space :: "16 word \<Rightarrow> bool" where
  "is_space c \<longleftrightarrow>
     (0x9 \<le> c \<and> c \<le> 0xD) \<or> c = 0x20 \<or> c = 0xA0 \<or> c = 0x1680 \<or>
     (0x2000 \<le> c \<and> c \<le> 0x200A) \<or> c = 0x2028 \<or> c = 0x2029 \<or> c = 0x202F \<or>
     c = 0x205F \<or> c = 0x3000 \<or> c = 0xFEFF"

definition trim :: "jsstring \<Rightarrow> jsstring" where
  "trim s = rev (dropWhile is_space (rev (dropWhile is_space s)))"

text \<open>A string in a condition: the empty string is falsy, every other string truthy.\<close>

definition truthy :: "jsstring \<Rightarrow> bool" where
  "truthy s \<longleftrightarrow> s \<noteq> []"

text \<open>
  \<open>Date.now()\<close> is an integer number of milliseconds (negative before 1970), and
  \<open>toString\<close> of an integer of that size is its decimal numeral, with a minus sign
  when negative.
\<close>

definition digit :: "nat \<Rightarrow> 16 word" where
  "digit d = 0x30 + of_nat d"

function digits :: "nat \<Rightarrow> jsstring" where
  "digits n = (if n < 10 then [digit n] else digits (n div 10) @ [digit (n mod 10)])"
  by pat_completeness auto
termination
  by (relation "measure (\<lambda>n. n)") auto

declare digits.simps [simp del]

definition toString :: "int \<Rightarrow> jsstring" where
  "toString i = (if i < 0 then 0x2D # digits (nat (- i)) else digits (nat i))"


section \<open>The state of the component\<close>

text \<open>
  A task object \<open>{ id, text, checked }\<close>; its fields are \<open>task_id\<close>,
  \<open>task_text\<close> and \<open>task_checked\<close> here, \<open>id\<close> and \<open>text\<close> being taken
  in Isabelle. The animated variant of the screen adds a fourth field
  \<open>hasAnimated\<close>; it is the extension of the record, so every handler that only
  reads and copies task objects is one definition for both variants.
\<close>

record Task =
  task_id :: jsstring
  task_text :: jsstring
  task_checked :: bool

record AnimatedTask = Task +
  hasAnimated :: bool

text \<open>The four \<open>useState\<close> variables of \<open>App\<close>.\<close>

record 'e App =
  task :: jsstring
  tasks :: "'e Task_scheme list"
  modalVisible :: bool
  selectedTask :: "'e Task_scheme option"

definition initial :: "'e App" where
  "initial = \<lparr>task = [], tasks = [], modalVisible = False, selectedTask = None\<rparr>"


section \<open>The handlers\<close>

text \<open>
  Each handler of \<open>App\<close> is a function from the state in which the event arrives to
  the state after it: React runs one handler at a time and renders before the next
  event, so a handler reads the state variables as the handler before it left them.
\<close>

text \<open>The text input's \<open>onChangeText\<close>.\<close>

definition setTask :: "jsstring \<Rightarrow> 'e App \<Rightarrow> 'e App" where
  "setTask input s = s\<lparr>task := input\<rparr>"

text \<open>\<open>addTask\<close> of \<open>App.js\<close>; \<open>now\<close> is what \<open>Date.now()\<close> returns.\<close>

definition addTask :: "int \<Rightarrow> unit App \<Rightarrow> unit App" where
  "addTask now s =
     (if truthy (trim (task s)) then
        let newTask = \<lparr>task_id = toString now, task_text = task s, task_checked = False\<rparr>
        in s\<lparr>tasks := tasks s @ [newTask], task := []\<rparr>
      else s)"

text \<open>\<open>addTask\<close> of the animated variant.\<close>

definition addTask_animated ::
  "int \<Rightarrow> unit AnimatedTask_ext App \<Rightarrow> unit AnimatedTask_ext App" where
  "addTask_animated now s =
     (if truthy (trim (task s)) then
        let newTask = \<lparr>task_id = toString now, task_text = task s, task_checked = False,
                       hasAnimated = False\<rparr>
        in s\<lparr>tasks := tasks s @ [newTask], task := []\<rparr>
      else s)"

definition openTaskModal :: "'e Task_scheme \<Rightarrow> 'e App \<Rightarrow> 'e App" where
  "openTaskModal t s = s\<lparr>selectedTask := Some t, modalVisible := True\<rparr>"

definition deleteTask :: "jsstring \<Rightarrow> 'e App \<Rightarrow> 'e App" where
  "deleteTask taskId s = s\<lparr>tasks := filter (\<lambda>item. task_id item \<noteq> taskId) (tasks s)\<rparr>"

definition saveTaskEdit :: "'e Task_scheme \<Rightarrow> 'e App \<Rightarrow> 'e App" where
  "saveTaskEdit editedTask s =
     s\<lparr>tasks := map (\<lambda>t. if task_id t = task_id editedTask
                           then t\<lparr>task_text := task_text editedTask\<rparr> else t) (tasks s),
       modalVisible := False\<rparr>"

definition checkOff :: "jsstring \<Rightarrow> 'e App \<Rightarrow> 'e App" where
  "checkOff taskId s =
     s\<lparr>tasks := map (\<lambda>t. if task_id t = taskId
                           then t\<lparr>task_checked := \<not> task_checked t\<rparr> else t) (tasks s)\<rparr>"

text \<open>
  The three inline handlers of the edit dialog: the text field's \<open>onChangeText\<close>,
  which replaces the text of the draft, the Save button, which calls
  \<open>saveTaskEdit\<close> on the draft, and the Cancel button. The text field and the
  buttons are rendered only while \<open>selectedTask\<close> is set, so the first two are
  never called without a draft; the model leaves the state alone there.
\<close>

definition changeDraftText :: "jsstring \<Rightarrow> 'e App \<Rightarrow> 'e App" where
  "changeDraftText input s =
     (case selectedTask s of
        None \<Rightarrow> s
      | Some prev \<Rightarrow> s\<lparr>selectedTask := Some (prev\<lparr>task_text := input\<rparr>)\<rparr>)"

definition pressSave :: "'e App \<Rightarrow> 'e App" where
  "pressSave s = (case selectedTask s of None \<Rightarrow> s | Some t \<Rightarrow> saveTaskEdit t s)"

definition pressCancel :: "'e App \<Rightarrow> 'e App" where
  "pressCancel s = s\<lparr>modalVisible := False\<rparr>"

section \<open>Sequences of operations\<close>

text \<open>
  The operations of the task list as events of the screen: Create types a text and
  presses the add button at a clock reading, Toggle and Delete carry a task id, and
  SaveEdit carries the draft whose id and text are saved.
\<close>

datatype event =
  Create jsstring int
| Toggle jsstring
| Delete jsstring
| SaveEdit Task

fun perform :: "event \<Rightarrow> unit App \<Rightarrow> unit App" where
  "perform (Create input now) s = addTask now (setTask input s)"
| "perform (Toggle taskId) s = checkOff taskId s"
| "perform (Delete taskId) s = deleteTask taskId s"
| "perform (SaveEdit draft) s = saveTaskEdit draft s"

fun run :: "event list \<Rightarrow> unit App \<Rightarrow> unit App" where
  "run [] s = s"
| "run (e # es) s = run es (perform e s)"

text \<open>
  The clock readings a sequence of events takes: \<open>Date.now()\<close> is called by a Create
  whose text passes the emptiness test, and by nothing else.
\<close>

fun readings :: "event list \<Rightarrow> int list" where
  "readings [] = []"
| "readings (Create input now # es) =
     (if truthy (trim input) then now # readings es else readings es)"
| "readings (e # es) = readings es"

section \<open>Example states\<close>

text \<open>
  A session in which two tasks were created at the clock readings 1 and 2 and the
  second one was checked off, and the same list in the animated variant.
\<close>

definition two_tasks :: "unit App" where
  "two_tasks =
     run [Create (str ''buy milk'') 1, Create (str ''walk dog'') 2, Toggle (str ''2'')] initial"

definition two_animated :: "unit AnimatedTask_ext App" where
  "two_animated =
     checkOff (str ''2'')
       (addTask_animated 2 (setTask (str ''walk dog'')
         (addTask_animated 1 (setTask (str ''buy milk'') initial))))"


section \<open>JSON values and texts\<close>

text \<open>
  \<open>JSON.stringify\<close> and \<open>JSON.parse\<close> belong to the JavaScript engine, not to the
  app; they are modelled from ECMA-262 and ECMA-404.

  The values \<open>JSON.parse\<close> can return. A number is kept as the numeral that was
  read, and \<open>JSON_stringify\<close> writes that numeral where the engine writes the
  shortest numeral of the same double; no task field is a number, and nothing below
  looks at the value of one. An object
  lists its members in the order in which their keys first occur in the text, a key
  that occurs again replacing the value of its first occurrence. (The engine moves
  keys that are array indices to the front; no claim depends on the order of the keys
  of such an object, and it is not modelled.)
\<close>

datatype json =
    JNull
  | JBool bool
  | JNum jsstring
  | JStr jsstring
  | JArr "json list"
  | JObj "(jsstring \<times> json) list"

abbreviation DQUOTE :: "16 word" where "DQUOTE \<equiv> 0x22"
abbreviation BACKSLASH :: "16 word" where "BACKSLASH \<equiv> 0x5C"
abbreviation SLASH :: "16 word" where "SLASH \<equiv> 0x2F"
abbreviation LBRACE :: "16 word" where "LBRACE \<equiv> 0x7B"
abbreviation RBRACE :: "16 word" where "RBRACE \<equiv> 0x7D"
abbreviation LBRACKET :: "16 word" where "LBRACKET \<equiv> 0x5B"
abbreviation RBRACKET :: "16 word" where "RBRACKET \<equiv> 0x5D"
abbreviation COLON :: "16 word" where "COLON \<equiv> 0x3A"
abbreviation COMMA :: "16 word" where "COMMA \<equiv> 0x2C"
abbreviation MINUS :: "16 word" where "MINUS \<equiv> 0x2D"
abbreviation PLUS :: "16 word" where "PLUS \<equiv> 0x2B"
abbreviation DOT :: "16 word" where "DOT \<equiv> 0x2E"

subsection \<open>\<open>JSON.stringify\<close>\<close>

text \<open>
  QuoteJSONString of ECMA-262: the quote, the backslash and the control characters are
  escaped, the five control characters with a short escape by it and the others by
  \<open>\u\<close> and four lower-case hexadecimal digits; so is a surrogate that is not part
  of a pair; every other code unit stands for itself.
\<close>

definition hex_digit :: "nat \<Rightarrow> 16 word" where
  "hex_digit d = (if d < 10 then of_nat (48 + d) else of_nat (87 + d))"

definition unicode_escape :: "16 word \<Rightarrow> jsstring" where
  "unicode_escape c =
     [BACKSLASH, 0x75, hex_digit (unat c div 4096), hex_digit (unat c div 256 mod 16),
      hex_digit (unat c div 16 mod 16), hex_digit (unat c mod 16)]"

definition is_high_surrogate :: "16 word \<Rightarrow> bool" where
  "is_high_surrogate c \<longleftrightarrow> 0xD800 \<le> c \<and> c \<le> 0xDBFF"

definition is_low_surrogate :: "16 word \<Rightarrow> bool" where
  "is_low_surrogate c \<longleftrightarrow> 0xDC00 \<le> c \<and> c \<le> 0xDFFF"

definition quote_unit :: "16 word \<Rightarrow> jsstring" where
  "quote_unit c =
     (if c = 0x08 then [BACKSLASH, 0x62]
      else if c = 0x09 then [BACKSLASH, 0x74]
      else if c = 0x0A then [BACKSLASH, 0x6E]
      else if c = 0x0C then [BACKSLASH, 0x66]
      else if c = 0x0D then [BACKSLASH, 0x72]
      else if c = DQUOTE then [BACKSLASH, DQUOTE]
      else if c = BACKSLASH then [BACKSLASH, BACKSLASH]
      else if c < 0x20 \<or> is_high_surrogate c \<or> is_low_surrogate c then unicode_escape c
      else [c])"

fun quote_units :: "jsstring \<Rightarrow> jsstring" where
  "quote_units [] = []"
| "quote_units [c] = quote_unit c"
| "quote_units (c # d # cs) =
     (if is_high_surrogate c \<and> is_low_surrogate d then c # d # quote_units cs
      else quote_unit c @ quote_units (d # cs))"

definition QuoteJSONString :: "jsstring \<Rightarrow> jsstring" where
  "QuoteJSONString s = DQUOTE # quote_units s @ [DQUOTE]"

fun commas :: "jsstring list \<Rightarrow> jsstring" where
  "commas [] = []"
| "commas [x] = x"
| "commas (x # y # ys) = x @ COMMA # commas (y # ys)"

text \<open>\<open>JSON.stringify\<close> with one argument: no indentation, no white space.\<close>

fun JSON_stringify :: "json \<Rightarrow> jsstring" where
  "JSON_stringify JNull = str ''null''"
| "JSON_stringify (JBool b) = (if b then str ''true'' else str ''false'')"
| "JSON_stringify (JNum n) = n"
| "JSON_stringify (JStr s) = QuoteJSONString s"
| "JSON_stringify (JArr vs) = LBRACKET # commas (map JSON_stringify vs) @ [RBRACKET]"
| "JSON_stringify (JObj ms) =
     LBRACE # commas (map (\<lambda>(k, v). QuoteJSONString k @ COLON # JSON_stringify v) ms)
       @ [RBRACE]"

subsection \<open>\<open>JSON.parse\<close>\<close>

text \<open>
  The JSON grammar of ECMA-404, which \<open>JSON.parse\<close> follows: white space is space,
  tab, line feed and carriage return; a text is one value between white space. The
  parser is a recursive descent; the recursion into nested values counts down a fuel
  that \<open>JSON_parse\<close> sets high enough for the text.
\<close>

datatype 'a parsed = SyntaxError | OutOfFuel | Parsed 'a jsstring

fun and_then :: "'a parsed \<Rightarrow> ('a \<Rightarrow> jsstring \<Rightarrow> 'b parsed) \<Rightarrow> 'b parsed" where
  "and_then SyntaxError f = SyntaxError"
| "and_then OutOfFuel f = OutOfFuel"
| "and_then (Parsed x rest) f = f x rest"

definition is_json_ws :: "16 word \<Rightarrow> bool" where
  "is_json_ws c \<longleftrightarrow> c = 0x20 \<or> c = 0x09 \<or> c = 0x0A \<or> c = 0x0D"

definition skip_ws :: "jsstring \<Rightarrow> jsstring" where
  "skip_ws s = dropWhile is_json_ws s"

definition is_digit :: "16 word \<Rightarrow> bool" where
  "is_digit c \<longleftrightarrow> 0x30 \<le> c \<and> c \<le> 0x39"

definition hex_value :: "16 word \<Rightarrow> nat option" where
  "hex_value c =
     (if 0x30 \<le> c \<and> c \<le> 0x39 then Some (unat c - 48)
      else if 0x41 \<le> c \<and> c \<le> 0x46 then Some (unat c - 55)
      else if 0x61 \<le> c \<and> c \<le> 0x66 then Some (unat c - 87)
      else None)"

definition parse_hex4 :: "16 word \<Rightarrow> 16 word \<Rightarrow> 16 word \<Rightarrow> 16 word \<Rightarrow> 16 word option" where
  "parse_hex4 h1 h2 h3 h4 =
     (case (hex_value h1, hex_value h2, hex_value h3, hex_value h4) of
        (Some a, Some b, Some c, Some d) \<Rightarrow> Some (of_nat (((a * 16 + b) * 16 + c) * 16 + d))
      | _ \<Rightarrow> None)"

definition unescape :: "16 word \<Rightarrow> 16 word option" where
  "unescape e =
     (if e = DQUOTE then Some DQUOTE
      else if e = BACKSLASH then Some BACKSLASH
      else if e = SLASH then Some SLASH
      else if e = 0x62 then Some 0x08
      else if e = 0x66 then Some 0x0C
      else if e = 0x6E then Some 0x0A
      else if e = 0x72 then Some 0x0D
      else if e = 0x74 then Some 0x09
      else None)"

definition prepend :: "16 word \<Rightarrow> jsstring parsed \<Rightarrow> jsstring parsed" where
  "prepend u p = and_then p (\<lambda>s rest. Parsed (u # s) rest)"

text \<open>
  One character of a string: a code unit that stands for itself, or an escape. The
  units allowed after a backslash are the quote, the backslash, the slash, b, f, n, r,
  t, and u with four hexadecimal digits; a control character may not stand for itself.
\<close>

definition next_unit :: "jsstring \<Rightarrow> (16 word \<times> jsstring) option" where
  "next_unit s =
     (case s of
        [] \<Rightarrow> None
      | c # cs \<Rightarrow>
          if c = BACKSLASH then
            (case cs of
               [] \<Rightarrow> None
             | e # es \<Rightarrow>
                 if e = 0x75 then
                   (case es of
                      h1 # h2 # h3 # h4 # rest \<Rightarrow>
                        (case parse_hex4 h1 h2 h3 h4 of
                           None \<Rightarrow> None
                         | Some u \<Rightarrow> Some (u, rest))
                    | _ \<Rightarrow> None)
                 else
                   (case unescape e of
                      None \<Rightarrow> None
                    | Some u \<Rightarrow> Some (u, es)))
          else if c < 0x20 then None
          else Some (c, cs))"

lemma next_unit_length: "next_unit s = Some (u, rest) \<Longrightarrow> length rest < length s"
  by (auto simp: next_unit_def split: list.splits option.splits if_splits)

text \<open>The characters of a string, after its opening quote and up to its closing one.\<close>

function parse_chars :: "jsstring \<Rightarrow> jsstring parsed" where
  "parse_chars s =
     (case s of
        [] \<Rightarrow> SyntaxError
      | c # cs \<Rightarrow>
          if c = DQUOTE then Parsed [] cs
          else
            (case next_unit s of
               None \<Rightarrow> SyntaxError
             | Some (u, rest) \<Rightarrow> prepend u (parse_chars rest)))"
  by pat_completeness auto
termination
  by (relation "measure length") (auto dest: next_unit_length)

declare parse_chars.simps [simp del]

text \<open>
  A number: an optional minus, then 0 or a digit sequence that does not start with 0,
  then an optional fraction and an optional exponent, each taken when its digits are
  there. What follows the longest numeral is left to the caller.
\<close>

definition take_fraction :: "jsstring \<Rightarrow> jsstring" where
  "take_fraction s =
     (case s of
        c # cs \<Rightarrow> if c = DOT \<and> takeWhile is_digit cs \<noteq> [] then c # takeWhile is_digit cs else []
      | [] \<Rightarrow> [])"

definition take_exponent :: "jsstring \<Rightarrow> jsstring" where
  "take_exponent s =
     (case s of
        c # cs \<Rightarrow>
          if c = 0x65 \<or> c = 0x45 then
            (case cs of
               d # ds \<Rightarrow>
                 if (d = PLUS \<or> d = MINUS) \<and> takeWhile is_digit ds \<noteq> []
                 then c # d # takeWhile is_digit ds
                 else if takeWhile is_digit cs \<noteq> [] then c # takeWhile is_digit cs
                 else []
             | [] \<Rightarrow> [])
          else []
      | [] \<Rightarrow> [])"

definition take_integer :: "jsstring \<Rightarrow> jsstring" where
  "take_integer s =
     (case s of c # cs \<Rightarrow> if c = 0x30 then [c] else takeWhile is_digit s | [] \<Rightarrow> [])"

definition parse_number :: "jsstring \<Rightarrow> jsstring parsed" where
  "parse_number s =
     (let sign = (case s of c # cs \<Rightarrow> if c = MINUS then [c] else [] | [] \<Rightarrow> []);
          s1 = drop (length sign) s;
          whole = take_integer s1;
          s2 = drop (length whole) s1;
          fraction = take_fraction s2;
          s3 = drop (length fraction) s2;
          exponent = take_exponent s3
      in if whole = [] then SyntaxError
         else Parsed (sign @ whole @ fraction @ exponent) (drop (length exponent) s3))"

definition starts_with :: "jsstring \<Rightarrow> jsstring \<Rightarrow> bool" where
  "starts_with p s \<longleftrightarrow> take (length p) s = p"

fun parse_value :: "nat \<Rightarrow> jsstring \<Rightarrow> json parsed"
  and parse_elements :: "nat \<Rightarrow> json list \<Rightarrow> jsstring \<Rightarrow> json list parsed"
  and parse_members ::
    "nat \<Rightarrow> (jsstring \<times> json) list \<Rightarrow> jsstring \<Rightarrow> (jsstring \<times> json) list parsed"
where
  "parse_value 0 s = OutOfFuel"
| "parse_value (Suc n) s =
     (case skip_ws s of
        [] \<Rightarrow> SyntaxError
      | c # cs \<Rightarrow>
          if c = LBRACE then
            (case skip_ws cs of
               [] \<Rightarrow> SyntaxError
             | d # ds \<Rightarrow>
                 if d = RBRACE then Parsed (JObj []) ds
                 else and_then (parse_members n [] (d # ds)) (\<lambda>ms rest. Parsed (JObj ms) rest))
          else if c = LBRACKET then
            (case skip_ws cs of
               [] \<Rightarrow> SyntaxError
             | d # ds \<Rightarrow>
                 if d = RBRACKET then Parsed (JArr []) ds
                 else and_then (parse_elements n [] (d # ds)) (\<lambda>vs rest. Parsed (JArr vs) rest))
          else if c = DQUOTE then
            and_then (parse_chars cs) (\<lambda>t rest. Parsed (JStr t) rest)
          else if starts_with (str ''true'') (c # cs) then Parsed (JBool True) (drop 4 (c # cs))
          else if starts_with (str ''false'') (c # cs) then Parsed (JBool False) (drop 5 (c # cs))
          else if starts_with (str ''null'') (c # cs) then Parsed JNull (drop 4 (c # cs))
          else and_then (parse_number (c # cs)) (\<lambda>n rest. Parsed (JNum n) rest))"
| "parse_elements 0 acc s = OutOfFuel"
| "parse_elements (Suc n) acc s =
     and_then (parse_value n s) (\<lambda>v rest.
       case skip_ws rest of
         [] \<Rightarrow> SyntaxError
       | c # cs \<Rightarrow>
           if c = COMMA then parse_elements n (acc @ [v]) cs
           else if c = RBRACKET then Parsed (acc @ [v]) cs
           else SyntaxError)"
| "parse_members 0 acc s = OutOfFuel"
| "parse_members (Suc n) acc s =
     (case skip_ws s of
        [] \<Rightarrow> SyntaxError
      | q # s1 \<Rightarrow>
          if q = DQUOTE then
            and_then (parse_chars s1) (\<lambda>k s2.
              case skip_ws s2 of
                [] \<Rightarrow> SyntaxError
              | c # s3 \<Rightarrow>
                  if c = COLON then
                    and_then (parse_value n s3) (\<lambda>v s4.
                      case skip_ws s4 of
                        [] \<Rightarrow> SyntaxError
                      | d # s5 \<Rightarrow>
                          if d = COMMA then parse_members n (AList.update k v acc) s5
                          else if d = RBRACE then Parsed (AList.update k v acc) s5
                          else SyntaxError)
                  else SyntaxError)
          else SyntaxError)"

text \<open>
  \<open>JSON.parse\<close> returns the value of the text or throws a SyntaxError. Every call
  of the descent that follows another one has consumed a character, so twice the
  length of the text is fuel enough (\<open>JSON_parse_fuel\<close> below).
\<close>

datatype error = JSONSyntaxError | StorageError

definition JSON_parse :: "jsstring \<Rightarrow> error + json" where
  "JSON_parse s =
     (case parse_value (2 * length s + 1) s of
        Parsed v rest \<Rightarrow> if skip_ws rest = [] then Inr v else Inl JSONSyntaxError
      | SyntaxError \<Rightarrow> Inl JSONSyntaxError
      | OutOfFuel \<Rightarrow> Inl JSONSyntaxError)"


section \<open>The durable store\<close>

text \<open>
  AsyncStorage, a library the app imports, by its contract: a map from keys to strings
  whose calls return promises.
  \<open>getItem\<close> resolves to the string stored under the key or to \<open>null\<close> (here
  \<open>None\<close>), \<open>setItem\<close> replaces the string under the key, and either promise is
  rejected when the store fails, which the flag \<open>failing\<close> stands for.
\<close>

record storage =
  items :: "string \<rightharpoonup> jsstring"
  failing :: bool

definition AsyncStorage_getItem :: "string \<Rightarrow> storage \<Rightarrow> error + jsstring option" where
  "AsyncStorage_getItem key st = (if failing st then Inl StorageError else Inr (items st key))"

definition AsyncStorage_setItem :: "string \<Rightarrow> jsstring \<Rightarrow> storage \<Rightarrow> error + storage" where
  "AsyncStorage_setItem key v st =
     (if failing st then Inl StorageError else Inr (st\<lparr>items := (items st)(key \<mapsto> v)\<rparr>))"

text \<open>
  The state variable \<open>tasks\<close> holds whatever \<open>setTasks\<close> was given, and
  \<open>loadTasksFromStorage\<close> gives it what \<open>JSON.parse\<close> returns; so the two functions
  of the store are modelled on JSON values, and \<open>tasks_json\<close> is the value that a list
  of task objects is. Both functions catch every exception and only log it: the
  \<open>Inl\<close> branches below return the state there was.
\<close>

definition saveTasksToStorage :: "json \<Rightarrow> storage \<Rightarrow> storage" where
  "saveTasksToStorage v st =
     (case AsyncStorage_setItem ''tasks'' (JSON_stringify v) st of
        Inl e \<Rightarrow> st
      | Inr st' \<Rightarrow> st')"

definition loadTasksFromStorage :: "storage \<Rightarrow> json \<Rightarrow> json" where
  "loadTasksFromStorage st current =
     (case AsyncStorage_getItem ''tasks'' st of
        Inl e \<Rightarrow> current
      | Inr None \<Rightarrow> current
      | Inr (Some storedTasks) \<Rightarrow>
          if truthy storedTasks then
            (case JSON_parse storedTasks of
               Inl e \<Rightarrow> current
             | Inr v \<Rightarrow> v)
          else current)"

definition task_json :: "Task \<Rightarrow> json" where
  "task_json t =
     JObj [(str ''id'', JStr (task_id t)), (str ''text'', JStr (task_text t)),
           (str ''checked'', JBool (task_checked t))]"

definition tasks_json :: "Task list \<Rightarrow> json" where
  "tasks_json ts = JArr (map task_json ts)"

text \<open>The shape of a stored list of tasks: an array of objects with the three fields.\<close>

definition is_task_json :: "json \<Rightarrow> bool" where
  "is_task_json v =
     (case v of
        JObj ms \<Rightarrow>
          (case (map_of ms (str ''id''), map_of ms (str ''text''), map_of ms (str ''checked'')) of
             (Some (JStr i), Some (JStr t), Some (JBool c)) \<Rightarrow> True
           | _ \<Rightarrow> False)
      | _ \<Rightarrow> False)"

definition is_tasks_json :: "json \<Rightarrow> bool" where
  "is_tasks_json v = (case v of JArr vs \<Rightarrow> list_all is_task_json vs | _ \<Rightarrow> False)"

text \<open>The text of a task object after its opening brace.\<close>

definition task_members :: "Task \<Rightarrow> jsstring" where
  "task_members t =
     QuoteJSONString (str ''id'') @ COLON # QuoteJSONString (task_id t) @ COMMA #
     QuoteJSONString (str ''text'') @ COLON # QuoteJSONString (task_text t) @ COMMA #
     QuoteJSONString (str ''checked'') @ COLON # JSON_stringify (JBool (task_checked t)) @
     [RBRACE]"


section \<open>Decimal numerals and trimming\<close>

lemma unat_digit: "d < 10 \<Longrightarrow> unat (digit d) = 48 + d"
proof -
  assume d: "d < 10"
  have "digit d = of_nat (48 + d)" by (simp add: digit_def)
  then have "unat (digit d) = (48 + d) mod 2 ^ 16"
    by (simp only: unat_of_nat len_of_numeral_defs) simp
  with d show ?thesis by simp
qed

lemma digit_inj: "a < 10 \<Longrightarrow> b < 10 \<Longrightarrow> digit a = digit b \<Longrightarrow> a = b"
proof -
  assume a: "a < 10" and b: "b < 10" and e: "digit a = digit b"
  from e have "unat (digit a) = unat (digit b)" by (rule arg_cong)
  then have "48 + a = 48 + b" by (simp only: unat_digit [OF a] unat_digit [OF b])
  then show ?thesis by simp
qed

lemma digit_not_minus: "d < 10 \<Longrightarrow> digit d \<noteq> 0x2D"
proof
  assume d: "d < 10" and e: "digit d = 0x2D"
  from e have "unat (digit d) = unat (0x2D :: 16 word)" by (rule arg_cong)
  then have "48 + d = 45" by (simp only: unat_digit [OF d]) simp
  then show False by simp
qed

lemma digits_nonempty: "digits n \<noteq> []"
  by (subst digits.simps) simp

lemma length_digits: "10 \<le> n \<Longrightarrow> 2 \<le> length (digits n)"
  using digits_nonempty [of "n div 10"]
  by (subst digits.simps) (cases "digits (n div 10)", auto)

lemma digits_no_minus: "0x2D \<notin> set (digits n)"
proof (induction n rule: digits.induct)
  case (1 n)
  show ?case
  proof (cases "n < 10")
    case True
    then show ?thesis using digit_not_minus [of n] by (simp add: digits.simps [of n])
  next
    case False
    then show ?thesis
      using 1 digit_not_minus [of "n mod 10"] by (simp add: digits.simps [of n])
  qed
qed

lemma digits_inj: "digits n = digits m \<Longrightarrow> n = m"
proof (induction n arbitrary: m rule: digits.induct)
  case (1 n)
  show ?case
  proof (cases "n < 10")
    case n: True
    show ?thesis
    proof (cases "m < 10")
      case m: True
      from 1(2) n m have "digit n = digit m"
        by (simp add: digits.simps [of n] digits.simps [of m])
      with n m show ?thesis by (simp add: digit_inj)
    next
      case False
      then have "2 \<le> length (digits m)" by (simp add: length_digits)
      moreover from n have "length (digits n) = 1" by (simp add: digits.simps [of n])
      ultimately show ?thesis using 1(2) by simp
    qed
  next
    case n: False
    show ?thesis
    proof (cases "m < 10")
      case True
      then have "length (digits m) = 1" by (simp add: digits.simps [of m])
      moreover from n have "2 \<le> length (digits n)" by (simp add: length_digits)
      ultimately show ?thesis using 1(2) by simp
    next
      case m: False
      from 1(2) n m have
        "digits (n div 10) @ [digit (n mod 10)] = digits (m div 10) @ [digit (m mod 10)]"
        by (simp add: digits.simps [of n] digits.simps [of m])
      then have q: "digits (n div 10) = digits (m div 10)"
        and d: "digit (n mod 10) = digit (m mod 10)"
        by simp_all
      from 1(1) [OF n q] have "n div 10 = m div 10" .
      moreover from d have "n mod 10 = m mod 10" by (intro digit_inj) simp_all
      ultimately show ?thesis by (metis div_mult_mod_eq)
    qed
  qed
qed

lemma toString_inj: "toString a = toString b \<Longrightarrow> a = b"
proof -
  assume e: "toString a = toString b"
  have neg: "toString i \<noteq> toString j" if "i < 0" "\<not> j < 0" for i j
  proof
    assume "toString i = toString j"
    with that have "0x2D # digits (nat (- i)) = digits (nat j)" by (simp add: toString_def)
    then have "0x2D \<in> set (digits (nat j))" by (metis list.set_intros(1))
    then show False by (simp add: digits_no_minus)
  qed
  show ?thesis
  proof (cases "a < 0")
    case a: True
    show ?thesis
    proof (cases "b < 0")
      case True
      with a e have "digits (nat (- a)) = digits (nat (- b))" by (simp add: toString_def)
      then have "nat (- a) = nat (- b)" by (rule digits_inj)
      with a True show ?thesis by simp
    next
      case False
      with a e neg [of a b] show ?thesis by simp
    qed
  next
    case a: False
    show ?thesis
    proof (cases "b < 0")
      case True
      with a e neg [of b a] show ?thesis by simp
    next
      case False
      with a e have "digits (nat a) = digits (nat b)" by (simp add: toString_def)
      then have "nat a = nat b" by (rule digits_inj)
      with a False show ?thesis by simp
    qed
  qed
qed

lemma trim_empty_iff: "trim s = [] \<longleftrightarrow> (\<forall>c \<in> set s. is_space c)"
proof
  assume "trim s = []"
  then have a: "\<forall>c \<in> set (dropWhile is_space s). is_space c"
    by (simp add: trim_def dropWhile_eq_Nil_conv)
  have "dropWhile is_space s = []"
  proof (rule ccontr)
    assume ne: "dropWhile is_space s \<noteq> []"
    then have "\<not> is_space (hd (dropWhile is_space s))" by (rule hd_dropWhile)
    moreover from ne have "hd (dropWhile is_space s) \<in> set (dropWhile is_space s)" by simp
    ultimately show False using a by blast
  qed
  then show "\<forall>c \<in> set s. is_space c" by (simp add: dropWhile_eq_Nil_conv)
next
  assume "\<forall>c \<in> set s. is_space c"
  then have h: "dropWhile is_space s = []" by (simp add: dropWhile_eq_Nil_conv)
  show "trim s = []" by (simp only: trim_def h rev.simps dropWhile.simps)
qed


section \<open>The handlers, one at a time\<close>

lemma tasks_setTask: "tasks (setTask input s) = tasks s"
  by (simp add: setTask_def)

lemma task_setTask: "task (setTask input s) = input"
  by (simp add: setTask_def)

lemma ids_checkOff: "map task_id (tasks (checkOff taskId s)) = map task_id (tasks s)"
  by (simp add: checkOff_def comp_def)

lemma ids_saveTaskEdit: "map task_id (tasks (saveTaskEdit d s)) = map task_id (tasks s)"
  by (simp add: saveTaskEdit_def comp_def)

lemma ids_deleteTask:
  "map task_id (tasks (deleteTask taskId s)) = filter (\<lambda>i. i \<noteq> taskId) (map task_id (tasks s))"
  by (simp add: deleteTask_def filter_map comp_def)

lemma ids_addTask:
  "map task_id (tasks (addTask now s)) =
     map task_id (tasks s) @ (if trim (task s) = [] then [] else [toString now])"
  by (simp add: addTask_def truthy_def Let_def)

lemma distinct_index:
  "distinct (map f xs) \<Longrightarrow> i < length xs \<Longrightarrow> j < length xs \<Longrightarrow> f (xs ! i) = f (xs ! j) \<Longrightarrow> i = j"
  by (metis length_map nth_eq_iff_index_eq nth_map)

lemma ids_run:
  "subseq (map task_id (tasks (run es s))) (map task_id (tasks s) @ map toString (readings es))"
proof (induction es arbitrary: s)
  case Nil
  show ?case by simp
next
  case (Cons e es)
  show ?case
  proof (cases e)
    case (Create input now)
    show ?thesis
      using Cons [of "addTask now (setTask input s)"]
      by (cases "trim input = []")
         (simp_all add: Create ids_addTask tasks_setTask task_setTask truthy_def)
  next
    case (Toggle taskId)
    show ?thesis using Cons [of "checkOff taskId s"] by (simp add: Toggle ids_checkOff)
  next
    case (Delete taskId)
    have "subseq (map task_id (tasks (deleteTask taskId s))) (map task_id (tasks s))"
      by (simp add: ids_deleteTask)
    then have "subseq (map task_id (tasks (deleteTask taskId s)) @ map toString (readings es))
            (map task_id (tasks s) @ map toString (readings es))"
      by (rule list_emb_append_mono) (rule subseq_order.refl)
    with Cons [of "deleteTask taskId s"]
    have "subseq (map task_id (tasks (run es (deleteTask taskId s))))
            (map task_id (tasks s) @ map toString (readings es))"
      by (rule subseq_order.trans)
    then show ?thesis by (simp add: Delete)
  next
    case (SaveEdit d)
    show ?thesis using Cons [of "saveTaskEdit d s"] by (simp add: SaveEdit ids_saveTaskEdit)
  qed
qed


section \<open>The example states, evaluated\<close>

lemma trim_blank: "trim (str ''  '') = []"
  by (simp add: str_def trim_def is_space_def)

lemma tasks_two_tasks:
  "tasks two_tasks =
     [\<lparr>task_id = str ''1'', task_text = str ''buy milk'', task_checked = False\<rparr>,
      \<lparr>task_id = str ''2'', task_text = str ''walk dog'', task_checked = True\<rparr>]"
  by code_simp


lemma subseq_distinct: "subseq xs ys \<Longrightarrow> distinct ys \<Longrightarrow> distinct xs"
  by (rule subseqs_distinctD [of xs ys]) simp_all

lemma tasks_initial: "tasks initial = []"
  by (simp add: initial_def)


section \<open>Create\<close>

text \<open>
  C3, as the code has it. For every state and every input text: when the trimmed text
  is empty (which is when every code unit of it is white space), typing it and pressing
  the add button leaves the list of tasks as it was; otherwise the list gains exactly
  one task, at the end, whose id is the decimal numeral of the clock reading, whose
  text is the input and whose checked flag is false, and the tasks before it are the
  old list. That id is new to the list whenever no task of the list carries the
  numeral. Both variants of \<open>addTask\<close> behave so.
\<close>

theorem addTask_create:
  "(trim input = [] \<longleftrightarrow> (\<forall>c \<in> set input. is_space c)) \<and>
   (trim input = [] \<longrightarrow>
      tasks (addTask now (setTask input s)) = tasks s \<and>
      tasks (addTask_animated now (setTask input a)) = tasks a) \<and>
   (trim input \<noteq> [] \<longrightarrow>
      tasks (addTask now (setTask input s)) =
        tasks s @ [\<lparr>task_id = toString now, task_text = input, task_checked = False\<rparr>] \<and>
      tasks (addTask_animated now (setTask input a)) =
        tasks a @ [\<lparr>task_id = toString now, task_text = input, task_checked = False,
                    hasAnimated = False\<rparr>]) \<and>
   (toString now \<notin> task_id ` set (tasks s) \<longrightarrow>
      distinct (map task_id (tasks s)) \<longrightarrow>
      distinct (map task_id (tasks (addTask now (setTask input s)))))"
proof -
  have ids: "map task_id (tasks (addTask now (setTask input s))) =
      map task_id (tasks s) @ (if trim input = [] then [] else [toString now])"
    by (simp add: ids_addTask tasks_setTask task_setTask)
  have "toString now \<notin> task_id ` set (tasks s) \<Longrightarrow> distinct (map task_id (tasks s)) \<Longrightarrow>
      distinct (map task_id (tasks (addTask now (setTask input s))))"
    by (simp only: ids) auto
  then show ?thesis
    by (simp add: trim_empty_iff addTask_def addTask_animated_def setTask_def truthy_def)
qed


theorem addTask_create_witness:
  "trim [] = [] \<and>
   tasks (addTask 3 (setTask [] two_tasks)) = tasks two_tasks \<and>
   trim (str ''  '') = [] \<and>
   tasks (addTask 3 (setTask (str ''  '') two_tasks)) = tasks two_tasks \<and>
   tasks (addTask_animated 3 (setTask (str ''  '') two_animated)) = tasks two_animated \<and>
   trim (str ''buy milk'') \<noteq> [] \<and>
   tasks (addTask 3 (setTask (str ''buy milk'') two_tasks)) =
     tasks two_tasks @
       [\<lparr>task_id = toString 3, task_text = str ''buy milk'', task_checked = False\<rparr>] \<and>
   tasks (addTask_animated 3 (setTask (str ''buy milk'') two_animated)) =
     tasks two_animated @
       [\<lparr>task_id = toString 3, task_text = str ''buy milk'', task_checked = False,
         hasAnimated = False\<rparr>] \<and>
   toString 3 \<notin> task_id ` set (tasks two_tasks) \<and>
   distinct (map task_id (tasks two_tasks)) \<and>
   distinct (map task_id (tasks (addTask 3 (setTask (str ''buy milk'') two_tasks))))"
proof -
  have blank: "trim (str ''  '') = []" by (rule trim_blank)
  have milk: "trim (str ''buy milk'') \<noteq> []" by code_simp
  have fresh: "toString 3 \<notin> task_id ` set (tasks two_tasks)" by code_simp
  have dist: "distinct (map task_id (tasks two_tasks))" by code_simp
  note a = addTask_create [of "str ''  ''" 3 two_tasks two_animated]
  note b = addTask_create [of "str ''buy milk''" 3 two_tasks two_animated]
  from a blank have "tasks (addTask 3 (setTask (str ''  '') two_tasks)) = tasks two_tasks"
    and "tasks (addTask_animated 3 (setTask (str ''  '') two_animated)) = tasks two_animated"
    by blast+
  moreover from b milk have
    "tasks (addTask 3 (setTask (str ''buy milk'') two_tasks)) =
       tasks two_tasks @
         [\<lparr>task_id = toString 3, task_text = str ''buy milk'', task_checked = False\<rparr>]"
    and "tasks (addTask_animated 3 (setTask (str ''buy milk'') two_animated)) =
       tasks two_animated @
         [\<lparr>task_id = toString 3, task_text = str ''buy milk'', task_checked = False,
           hasAnimated = False\<rparr>]"
    by blast+
  moreover from b fresh dist have
    "distinct (map task_id (tasks (addTask 3 (setTask (str ''buy milk'') two_tasks))))"
    by blast
  moreover have empty: "trim [] = []" by (simp add: trim_def)
  moreover from addTask_create [of "[]" 3 two_tasks two_animated] empty
  have "tasks (addTask 3 (setTask [] two_tasks)) = tasks two_tasks" by blast
  ultimately show ?thesis using blank milk fresh dist by blast
qed

text \<open>
  C3 as the specification states it promises an id that is not already in the list.
  A list that holds a task created at clock reading 1 gets a second task with the same
  id when the next task is created at the same reading.
\<close>

theorem addTask_fresh_id_counterexample:
  "trim (str ''buy milk'') \<noteq> [] \<and>
   task_id (last (tasks (addTask 1 (setTask (str ''buy milk'') two_tasks))))
     \<in> task_id ` set (tasks two_tasks)"
  by code_simp


section \<open>Unique ids\<close>

text \<open>
  C1, as the code has it. Starting from the empty list, after every sequence of
  Create, Toggle, Delete and SaveEdit whose Creates read pairwise distinct clock values,
  no two tasks share an id. The ids in the list are then the numerals of the readings
  taken, in the order taken, without those deleted.
\<close>

theorem ids_distinct_when_readings_distinct:
  "distinct (readings es) \<Longrightarrow>
     distinct (map task_id (tasks (run es initial))) \<and>
     subseq (map task_id (tasks (run es initial))) (map toString (readings es))"
proof -
  assume d: "distinct (readings es)"
  have "inj_on toString (set (readings es))"
    by (rule inj_onI) (rule toString_inj)
  with d have "distinct (map toString (readings es))" by (simp add: distinct_map)
  moreover have s: "subseq (map task_id (tasks (run es initial))) (map toString (readings es))"
    using ids_run [of es initial] by (simp add: tasks_initial)
  ultimately have "distinct (map task_id (tasks (run es initial)))"
    by (rule subseq_distinct [rotated])
  with s show ?thesis by simp
qed

theorem ids_distinct_when_readings_distinct_witness:
  "distinct (readings [Create (str ''buy milk'') 1, Create (str ''  '') 1,
      Create (str ''walk dog'') 2, Toggle (str ''2''), Delete (str ''1'')]) \<and>
   distinct (map task_id (tasks (run [Create (str ''buy milk'') 1, Create (str ''  '') 1,
      Create (str ''walk dog'') 2, Toggle (str ''2''), Delete (str ''1'')] initial)))"
proof -
  have "distinct (readings [Create (str ''buy milk'') 1, Create (str ''  '') 1,
      Create (str ''walk dog'') 2, Toggle (str ''2''), Delete (str ''1'')])"
    by code_simp
  then show ?thesis
    using ids_distinct_when_readings_distinct by blast
qed

text \<open>
  C1 as the specification states it covers two Creates at the same clock instant. They
  yield two tasks with the same id.
\<close>

theorem same_instant_counterexample:
  "map task_id (tasks (run [Create (str ''buy milk'') 1, Create (str ''walk dog'') 1] initial))
     = [str ''1'', str ''1''] \<and>
   \<not> distinct (map task_id
     (tasks (run [Create (str ''buy milk'') 1, Create (str ''walk dog'') 1] initial)))"
  by code_simp


section \<open>SaveEdit\<close>

text \<open>
  C5. For every list, every draft (an id and a new text, which may be empty) and every
  position of the list: the task there keeps its id and its checked flag; when its id
  is the draft's, it becomes the same task with the draft's text, verbatim; when not,
  it is unchanged. When no task has the draft's id the list is unchanged. In a list
  without duplicate ids at most one position changes.
\<close>

theorem saveTaskEdit_frame:
  "length (tasks (saveTaskEdit d s)) = length (tasks s) \<and>
   (\<forall>k < length (tasks s).
      task_id (tasks (saveTaskEdit d s) ! k) = task_id (tasks s ! k) \<and>
      task_checked (tasks (saveTaskEdit d s) ! k) = task_checked (tasks s ! k) \<and>
      (task_id (tasks s ! k) = task_id d \<longrightarrow>
         tasks (saveTaskEdit d s) ! k = (tasks s ! k)\<lparr>task_text := task_text d\<rparr>) \<and>
      (task_id (tasks s ! k) \<noteq> task_id d \<longrightarrow>
         tasks (saveTaskEdit d s) ! k = tasks s ! k)) \<and>
   (task_id d \<notin> task_id ` set (tasks s) \<longrightarrow> tasks (saveTaskEdit d s) = tasks s) \<and>
   (distinct (map task_id (tasks s)) \<longrightarrow>
      (\<forall>j k. j < length (tasks s) \<and> k < length (tasks s) \<and>
         tasks (saveTaskEdit d s) ! j \<noteq> tasks s ! j \<and>
         tasks (saveTaskEdit d s) ! k \<noteq> tasks s ! k \<longrightarrow> j = k))"
proof -
  have absent: "tasks (saveTaskEdit d s) = tasks s" if "task_id d \<notin> task_id ` set (tasks s)"
  proof -
    from that have "\<forall>t \<in> set (tasks s). task_id t \<noteq> task_id d" by (metis imageI)
    then have "map (\<lambda>t. if task_id t = task_id d then t\<lparr>task_text := task_text d\<rparr> else t)
        (tasks s) = map (\<lambda>t. t) (tasks s)"
      by (intro map_cong) simp_all
    then show ?thesis by (simp add: saveTaskEdit_def)
  qed
  have one: "j = k"
    if "distinct (map task_id (tasks s))" "j < length (tasks s)" "k < length (tasks s)"
      "tasks (saveTaskEdit d s) ! j \<noteq> tasks s ! j" "tasks (saveTaskEdit d s) ! k \<noteq> tasks s ! k"
    for j k
  proof -
    from that(2,4) have "task_id (tasks s ! j) = task_id d"
      by (simp add: saveTaskEdit_def split: if_splits)
    moreover from that(3,5) have "task_id (tasks s ! k) = task_id d"
      by (simp add: saveTaskEdit_def split: if_splits)
    ultimately show ?thesis using that(1,2,3) by (simp add: distinct_index)
  qed
  have "length (tasks (saveTaskEdit d s)) = length (tasks s)"
    by (simp add: saveTaskEdit_def)
  moreover have "\<forall>k < length (tasks s).
      task_id (tasks (saveTaskEdit d s) ! k) = task_id (tasks s ! k) \<and>
      task_checked (tasks (saveTaskEdit d s) ! k) = task_checked (tasks s ! k) \<and>
      (task_id (tasks s ! k) = task_id d \<longrightarrow>
         tasks (saveTaskEdit d s) ! k = (tasks s ! k)\<lparr>task_text := task_text d\<rparr>) \<and>
      (task_id (tasks s ! k) \<noteq> task_id d \<longrightarrow>
         tasks (saveTaskEdit d s) ! k = tasks s ! k)"
    by (simp add: saveTaskEdit_def)
  ultimately show ?thesis using absent one by blast
qed

theorem saveTaskEdit_frame_witness:
  "(0::nat) < length (tasks two_tasks) \<and>
   task_id (tasks two_tasks ! 0) = str ''1'' \<and>
   tasks (saveTaskEdit \<lparr>task_id = str ''1'', task_text = [], task_checked = True\<rparr> two_tasks)
     ! 0 = (tasks two_tasks ! 0)\<lparr>task_text := []\<rparr> \<and>
   (1::nat) < length (tasks two_tasks) \<and>
   task_id (tasks two_tasks ! 1) \<noteq> str ''1'' \<and>
   tasks (saveTaskEdit \<lparr>task_id = str ''1'', task_text = [], task_checked = True\<rparr> two_tasks)
     ! 1 = tasks two_tasks ! 1 \<and>
   str ''7'' \<notin> task_id ` set (tasks two_tasks) \<and>
   tasks (saveTaskEdit \<lparr>task_id = str ''7'', task_text = [], task_checked = True\<rparr> two_tasks)
     = tasks two_tasks \<and>
   distinct (map task_id (tasks two_tasks)) \<and>
   tasks (saveTaskEdit \<lparr>task_id = str ''1'', task_text = [], task_checked = True\<rparr> two_tasks)
     ! 0 \<noteq> tasks two_tasks ! 0"
proof -
  have a: "(0::nat) < length (tasks two_tasks)" "task_id (tasks two_tasks ! 0) = str ''1''"
    "(1::nat) < length (tasks two_tasks)" "task_id (tasks two_tasks ! 1) \<noteq> str ''1''"
    "str ''7'' \<notin> task_id ` set (tasks two_tasks)"
    by code_simp+
  note f = saveTaskEdit_frame
    [of "\<lparr>task_id = str ''1'', task_text = [], task_checked = True\<rparr>" two_tasks]
  note g = saveTaskEdit_frame
    [of "\<lparr>task_id = str ''7'', task_text = [], task_checked = True\<rparr>" two_tasks]
  from f a(1,2) have
    "tasks (saveTaskEdit \<lparr>task_id = str ''1'', task_text = [], task_checked = True\<rparr> two_tasks)
       ! 0 = (tasks two_tasks ! 0)\<lparr>task_text := []\<rparr>"
    by simp
  moreover from f a(3,4) have
    "tasks (saveTaskEdit \<lparr>task_id = str ''1'', task_text = [], task_checked = True\<rparr> two_tasks)
       ! 1 = tasks two_tasks ! 1"
    by simp
  moreover from g a(5) have
    "tasks (saveTaskEdit \<lparr>task_id = str ''7'', task_text = [], task_checked = True\<rparr> two_tasks)
       = tasks two_tasks"
    by simp
  moreover have "distinct (map task_id (tasks two_tasks))" by code_simp
  moreover have
    "tasks (saveTaskEdit \<lparr>task_id = str ''1'', task_text = [], task_checked = True\<rparr> two_tasks)
       ! 0 \<noteq> tasks two_tasks ! 0"
    by code_simp
  ultimately show ?thesis using a by blast
qed


section \<open>Toggle\<close>

text \<open>
  C6. For every state and every id: toggling flips the checked flag of the task with
  that id, toggling twice gives back the state there was, and toggling an id that no
  task has leaves the state as it was.
\<close>

theorem checkOff_twice:
  "checkOff taskId (checkOff taskId s) = s \<and>
   (\<forall>k < length (tasks s). task_id (tasks s ! k) = taskId \<longrightarrow>
      task_checked (tasks (checkOff taskId s) ! k) = (\<not> task_checked (tasks s ! k)) \<and>
      task_checked (tasks (checkOff taskId (checkOff taskId s)) ! k) =
        task_checked (tasks s ! k)) \<and>
   (taskId \<notin> task_id ` set (tasks s) \<longrightarrow> checkOff taskId s = s)"
proof -
  have "map ((\<lambda>t. if task_id t = taskId then t\<lparr>task_checked := \<not> task_checked t\<rparr> else t) \<circ>
             (\<lambda>t. if task_id t = taskId then t\<lparr>task_checked := \<not> task_checked t\<rparr> else t))
          (tasks s) = map (\<lambda>t. t) (tasks s)"
    by (intro map_cong) simp_all
  then have twice: "checkOff taskId (checkOff taskId s) = s"
    by (simp add: checkOff_def)
  have absent: "checkOff taskId s = s" if "taskId \<notin> task_id ` set (tasks s)"
  proof -
    from that have "\<forall>t \<in> set (tasks s). task_id t \<noteq> taskId" by (metis imageI)
    then have "map (\<lambda>t. if task_id t = taskId then t\<lparr>task_checked := \<not> task_checked t\<rparr> else t)
        (tasks s) = map (\<lambda>t. t) (tasks s)"
      by (intro map_cong) simp_all
    then show ?thesis by (simp add: checkOff_def)
  qed
  have "\<forall>k < length (tasks s). task_id (tasks s ! k) = taskId \<longrightarrow>
      task_checked (tasks (checkOff taskId s) ! k) = (\<not> task_checked (tasks s ! k))"
    by (simp add: checkOff_def)
  with twice absent show ?thesis by simp
qed

theorem checkOff_twice_witness:
  "(1::nat) < length (tasks two_tasks) \<and> task_id (tasks two_tasks ! 1) = str ''2'' \<and>
   task_checked (tasks two_tasks ! 1) \<and>
   \<not> task_checked (tasks (checkOff (str ''2'') two_tasks) ! 1) \<and>
   task_checked (tasks (checkOff (str ''2'') (checkOff (str ''2'') two_tasks)) ! 1) \<and>
   str ''7'' \<notin> task_id ` set (tasks two_tasks) \<and>
   checkOff (str ''7'') two_tasks = two_tasks"
proof -
  have a: "(1::nat) < length (tasks two_tasks)" "task_id (tasks two_tasks ! 1) = str ''2''"
    "task_checked (tasks two_tasks ! 1)" "str ''7'' \<notin> task_id ` set (tasks two_tasks)"
    by code_simp+
  from checkOff_twice [of "str ''2''" two_tasks] a(1,2,3)
  have "\<not> task_checked (tasks (checkOff (str ''2'') two_tasks) ! 1)"
    and "task_checked (tasks (checkOff (str ''2'') (checkOff (str ''2'') two_tasks)) ! 1)"
    by simp_all
  moreover from checkOff_twice [of "str ''7''" two_tasks] a(4)
  have "checkOff (str ''7'') two_tasks = two_tasks" by simp
  ultimately show ?thesis using a by blast
qed


section \<open>Delete\<close>

text \<open>
  C9. For every state and every id: after \<open>deleteTask\<close> no task of the list has the
  id, a second \<open>deleteTask\<close> with the same id changes nothing, and \<open>deleteTask\<close> with
  an id that no task has changes nothing. The handler has no failing branch.
\<close>

theorem deleteTask_removes:
  "taskId \<notin> task_id ` set (tasks (deleteTask taskId s)) \<and>
   deleteTask taskId (deleteTask taskId s) = deleteTask taskId s \<and>
   (taskId \<notin> task_id ` set (tasks s) \<longrightarrow> deleteTask taskId s = s)"
proof -
  have absent: "deleteTask taskId s = s" if "taskId \<notin> task_id ` set (tasks s)"
  proof -
    from that have "\<forall>t \<in> set (tasks s). task_id t \<noteq> taskId" by (metis imageI)
    then have "filter (\<lambda>item. task_id item \<noteq> taskId) (tasks s) = tasks s"
      by (simp add: filter_id_conv)
    then show ?thesis by (simp add: deleteTask_def)
  qed
  have "taskId \<notin> task_id ` set (tasks (deleteTask taskId s))"
    by (auto simp: deleteTask_def)
  moreover have "deleteTask taskId (deleteTask taskId s) = deleteTask taskId s"
    by (simp add: deleteTask_def)
  ultimately show ?thesis using absent by blast
qed

theorem deleteTask_removes_witness:
  "str ''1'' \<in> task_id ` set (tasks two_tasks) \<and>
   str ''1'' \<notin> task_id ` set (tasks (deleteTask (str ''1'') two_tasks)) \<and>
   deleteTask (str ''1'') (deleteTask (str ''1'') two_tasks) = deleteTask (str ''1'') two_tasks \<and>
   str ''7'' \<notin> task_id ` set (tasks two_tasks) \<and>
   deleteTask (str ''7'') two_tasks = two_tasks"
proof -
  have a: "str ''1'' \<in> task_id ` set (tasks two_tasks)"
    "str ''7'' \<notin> task_id ` set (tasks two_tasks)"
    by code_simp+
  from deleteTask_removes [of "str ''7''" two_tasks] a(2)
  have "deleteTask (str ''7'') two_tasks = two_tasks" by simp
  with deleteTask_removes [of "str ''1''" two_tasks] a show ?thesis by blast
qed


section \<open>The edit dialog\<close>

text \<open>
  C7. For every state, every task \<open>t\<close> and every new text: opening the dialog on \<open>t\<close>
  and typing the new text leaves the list as it was and holds a draft with the id of
  \<open>t\<close> and the new text; Save then gives the list in which every task with the id of
  \<open>t\<close> has the new text and is otherwise unchanged, so a \<open>t\<close> of the list is there
  with the new text, its id and its checked flag; Cancel instead of Save leaves the
  list as it was before the dialog was opened.
\<close>

theorem edit_round_trip:
  "tasks (changeDraftText new (openTaskModal t s)) = tasks s \<and>
   selectedTask (changeDraftText new (openTaskModal t s)) = Some (t\<lparr>task_text := new\<rparr>) \<and>
   tasks (pressSave (changeDraftText new (openTaskModal t s))) =
     map (\<lambda>u. if task_id u = task_id t then u\<lparr>task_text := new\<rparr> else u) (tasks s) \<and>
   (t \<in> set (tasks s) \<longrightarrow>
      t\<lparr>task_text := new\<rparr> \<in> set (tasks (pressSave (changeDraftText new (openTaskModal t s)))) \<and>
      task_id (t\<lparr>task_text := new\<rparr>) = task_id t \<and>
      task_text (t\<lparr>task_text := new\<rparr>) = new \<and>
      task_checked (t\<lparr>task_text := new\<rparr>) = task_checked t) \<and>
   tasks (pressCancel (changeDraftText new (openTaskModal t s))) = tasks s"
proof -
  have save: "tasks (pressSave (changeDraftText new (openTaskModal t s))) =
     map (\<lambda>u. if task_id u = task_id t then u\<lparr>task_text := new\<rparr> else u) (tasks s)"
    by (simp add: pressSave_def changeDraftText_def openTaskModal_def saveTaskEdit_def)
  have "t\<lparr>task_text := new\<rparr> \<in> set (tasks (pressSave (changeDraftText new (openTaskModal t s))))"
    if "t \<in> set (tasks s)"
  proof -
    from that have "(\<lambda>u. if task_id u = task_id t then u\<lparr>task_text := new\<rparr> else u) t
        \<in> (\<lambda>u. if task_id u = task_id t then u\<lparr>task_text := new\<rparr> else u) ` set (tasks s)"
      by (rule imageI)
    then show ?thesis by (simp add: save)
  qed
  moreover have "tasks (changeDraftText new (openTaskModal t s)) = tasks s"
    "selectedTask (changeDraftText new (openTaskModal t s)) = Some (t\<lparr>task_text := new\<rparr>)"
    "tasks (pressCancel (changeDraftText new (openTaskModal t s))) = tasks s"
    by (simp_all add: pressCancel_def changeDraftText_def openTaskModal_def)
  ultimately show ?thesis using save by simp
qed

theorem edit_round_trip_witness:
  "\<lparr>task_id = str ''2'', task_text = str ''walk dog'', task_checked = True\<rparr>
     \<in> set (tasks two_tasks) \<and>
   \<lparr>task_id = str ''2'', task_text = str ''new'', task_checked = True\<rparr>
     \<in> set (tasks (pressSave (changeDraftText (str ''new'') (openTaskModal
          \<lparr>task_id = str ''2'', task_text = str ''walk dog'', task_checked = True\<rparr>
          two_tasks)))) \<and>
   tasks (pressCancel (changeDraftText (str ''new'') (openTaskModal
          \<lparr>task_id = str ''2'', task_text = str ''walk dog'', task_checked = True\<rparr>
          two_tasks))) = tasks two_tasks"
proof -
  have a: "\<lparr>task_id = str ''2'', task_text = str ''walk dog'', task_checked = True\<rparr>
     \<in> set (tasks two_tasks)"
    by code_simp
  have b: "\<lparr>task_id = str ''2'', task_text = str ''walk dog'', task_checked = True\<rparr>
      \<lparr>task_text := str ''new''\<rparr> =
    \<lparr>task_id = str ''2'', task_text = str ''new'', task_checked = True\<rparr>"
    by simp
  note e = edit_round_trip [of "str ''new''"
    "\<lparr>task_id = str ''2'', task_text = str ''walk dog'', task_checked = True\<rparr>" two_tasks]
  from e a have "\<lparr>task_id = str ''2'', task_text = str ''walk dog'', task_checked = True\<rparr>
      \<lparr>task_text := str ''new''\<rparr>
     \<in> set (tasks (pressSave (changeDraftText (str ''new'') (openTaskModal
          \<lparr>task_id = str ''2'', task_text = str ''walk dog'', task_checked = True\<rparr>
          two_tasks))))"
    by blast
  then have "\<lparr>task_id = str ''2'', task_text = str ''new'', task_checked = True\<rparr>
     \<in> set (tasks (pressSave (changeDraftText (str ''new'') (openTaskModal
          \<lparr>task_id = str ''2'', task_text = str ''walk dog'', task_checked = True\<rparr>
          two_tasks))))"
    by (simp only: b)
  with e a show ?thesis by blast
qed


section \<open>Ordering\<close>

text \<open>
  C8. The list is kept in creation order. Toggle and SaveEdit leave the sequence of ids
  as it is; Create leaves the list as it is or puts one task after its last one;
  Delete leaves a subsequence of the list, the tasks with another id, each as it was
  and in the order they had, and in a list without duplicate ids that holds the id it
  removes one task. So after every sequence of operations from the empty list the ids
  of the list are a subsequence of the ids created, in the order of their creation.
\<close>

theorem creation_order_kept:
  "map task_id (tasks (checkOff taskId s)) = map task_id (tasks s) \<and>
   map task_id (tasks (saveTaskEdit d s)) = map task_id (tasks s) \<and>
   (tasks (addTask now u) = tasks u \<or> (\<exists>t. tasks (addTask now u) = tasks u @ [t])) \<and>
   (tasks (addTask_animated now a) = tasks a \<or>
      (\<exists>t. tasks (addTask_animated now a) = tasks a @ [t])) \<and>
   subseq (tasks (deleteTask taskId s)) (tasks s) \<and>
   tasks (deleteTask taskId s) = filter (\<lambda>t. task_id t \<noteq> taskId) (tasks s) \<and>
   (distinct (map task_id (tasks s)) \<and> taskId \<in> task_id ` set (tasks s) \<longrightarrow>
      Suc (length (tasks (deleteTask taskId s))) = length (tasks s)) \<and>
   subseq (map task_id (tasks (run es initial))) (map toString (readings es))"
proof -
  have one: "Suc (length (tasks (deleteTask taskId s))) = length (tasks s)"
    if d: "distinct (map task_id (tasks s))" and m: "taskId \<in> task_id ` set (tasks s)"
  proof -
    let ?ids = "map task_id (tasks s)"
    from m have "{i. i = taskId} \<inter> set ?ids = {taskId}" by auto
    moreover from d have "length (filter (\<lambda>i. i = taskId) ?ids) =
        card ({i. i = taskId} \<inter> set ?ids)"
      by (rule distinct_length_filter)
    ultimately have "length (filter (\<lambda>i. i = taskId) (map task_id (tasks s))) = 1"
      by (simp only: card.empty card_insert_if finite.emptyI empty_iff if_False)
    moreover have "length (map task_id (tasks s)) =
        length (filter (\<lambda>i. i = taskId) (map task_id (tasks s))) +
        length (filter (\<lambda>i. \<not> i = taskId) (map task_id (tasks s)))"
      by (rule sum_length_filter_compl [symmetric])
    moreover have "length (tasks (deleteTask taskId s)) =
        length (filter (\<lambda>i. \<not> i = taskId) (map task_id (tasks s)))"
      using ids_deleteTask [of taskId s, THEN arg_cong, of length] by simp
    ultimately show ?thesis by simp
  qed
  have "tasks (addTask now u) = tasks u \<or> (\<exists>t. tasks (addTask now u) = tasks u @ [t])"
    by (simp add: addTask_def Let_def)
  moreover have "tasks (addTask_animated now a) = tasks a \<or>
      (\<exists>t. tasks (addTask_animated now a) = tasks a @ [t])"
    by (simp add: addTask_animated_def Let_def)
  moreover have "tasks (deleteTask taskId s) = filter (\<lambda>t. task_id t \<noteq> taskId) (tasks s)"
    by (simp add: deleteTask_def)
  moreover from this have "subseq (tasks (deleteTask taskId s)) (tasks s)"
    by simp
  moreover have "subseq (map task_id (tasks (run es initial))) (map toString (readings es))"
    using ids_run [of es initial] by (simp add: tasks_initial)
  ultimately show ?thesis
    using one ids_checkOff [of taskId s] ids_saveTaskEdit [of d s] by blast
qed

theorem creation_order_kept_witness:
  "distinct (map task_id (tasks two_tasks)) \<and> str ''1'' \<in> task_id ` set (tasks two_tasks) \<and>
   Suc (length (tasks (deleteTask (str ''1'') two_tasks))) = length (tasks two_tasks) \<and>
   subseq (tasks (deleteTask (str ''1'') two_tasks)) (tasks two_tasks)"
proof -
  have a: "distinct (map task_id (tasks two_tasks))"
    "str ''1'' \<in> task_id ` set (tasks two_tasks)"
    by code_simp+
  with creation_order_kept [of "str ''1''" two_tasks] show ?thesis by blast
qed


section \<open>The stored text\<close>

text \<open>
  C10. For every input text whose trimmed form is not empty, the task that Create
  appends has the input itself as its text, white space at its ends included: the
  texts of the list are the old ones followed by the input. Both variants of
  \<open>addTask\<close> behave so.
\<close>

theorem addTask_stores_raw_text:
  "trim input \<noteq> [] \<Longrightarrow>
     map task_text (tasks (addTask now (setTask input s))) = map task_text (tasks s) @ [input] \<and>
     map task_text (tasks (addTask_animated now (setTask input a))) =
       map task_text (tasks a) @ [input]"
  by (simp add: addTask_def addTask_animated_def setTask_def truthy_def)

theorem addTask_stores_raw_text_witness:
  "trim (str ''  buy milk  '') \<noteq> [] \<and>
   trim (str ''  buy milk  '') \<noteq> str ''  buy milk  '' \<and>
   map task_text (tasks (addTask 3 (setTask (str ''  buy milk  '') two_tasks))) =
     map task_text (tasks two_tasks) @ [str ''  buy milk  ''] \<and>
   map task_text (tasks (addTask_animated 3 (setTask (str ''  buy milk  '') two_animated))) =
     map task_text (tasks two_animated) @ [str ''  buy milk  '']"
proof -
  have a: "trim (str ''  buy milk  '') \<noteq> []"
    "trim (str ''  buy milk  '') \<noteq> str ''  buy milk  ''"
    by code_simp+
  with addTask_stores_raw_text [of "str ''  buy milk  ''" 3 two_tasks two_animated]
  show ?thesis by blast
qed


section \<open>Strings and JSON texts\<close>

text \<open>
  What \<open>JSON.stringify\<close> writes for a string, \<open>JSON.parse\<close> reads back as that
  string: every escape is undone, and every other code unit is taken as it stands.
\<close>

lemma unat_hex_digit: "d < 16 \<Longrightarrow> unat (hex_digit d) = (if d < 10 then 48 + d else 87 + d)"
proof -
  assume d: "d < 16"
  have k: "unat (of_nat k :: 16 word) = k" if "k < 65536" for k
    using that by (simp only: unat_of_nat len_of_numeral_defs) simp
  show ?thesis
  proof (cases "d < 10")
    case True
    then have "unat (hex_digit d) = unat (of_nat (48 + d) :: 16 word)"
      by (simp only: hex_digit_def if_True)
    also have "\<dots> = 48 + d" using d by (intro k) simp
    finally show ?thesis using True by simp
  next
    case False
    then have "unat (hex_digit d) = unat (of_nat (87 + d) :: 16 word)"
      by (simp only: hex_digit_def if_False)
    also have "\<dots> = 87 + d" using d by (intro k) simp
    finally show ?thesis using False by simp
  qed
qed

lemma hex_value_digit: "d < 16 \<Longrightarrow> hex_value (hex_digit d) = Some d"
  by (simp add: hex_value_def word_le_nat_alt unat_hex_digit)

lemma hex4_nat:
  "((n div 4096 * 16 + n div 256 mod 16) * 16 + n div 16 mod 16) * 16 + n mod 16 = (n::nat)"
proof -
  have "n div 4096 = n div 256 div 16" and "n div 256 = n div 16 div 16"
    by (simp_all add: div_mult2_eq [symmetric])
  then have "n div 4096 * 16 + n div 256 mod 16 = n div 256"
    and "n div 256 * 16 + n div 16 mod 16 = n div 16"
    by simp_all
  then show ?thesis by simp
qed

lemma parse_hex4_escape:
  "parse_hex4 (hex_digit (unat c div 4096)) (hex_digit (unat c div 256 mod 16))
     (hex_digit (unat c div 16 mod 16)) (hex_digit (unat c mod 16)) = Some c"
proof -
  have "unat c < 65536" using unsigned_less [of c] by simp
  then have a: "unat c div 4096 < 16" by simp
  have b: "unat c div 256 mod 16 < 16" "unat c div 16 mod 16 < 16" "unat c mod 16 < 16"
    by simp_all
  have "parse_hex4 (hex_digit (unat c div 4096)) (hex_digit (unat c div 256 mod 16))
     (hex_digit (unat c div 16 mod 16)) (hex_digit (unat c mod 16)) =
     Some (of_nat (((unat c div 4096 * 16 + unat c div 256 mod 16) * 16 + unat c div 16 mod 16) * 16
       + unat c mod 16))"
    by (simp only: parse_hex4_def hex_value_digit [OF a] hex_value_digit [OF b(1)]
        hex_value_digit [OF b(2)] hex_value_digit [OF b(3)] prod.case option.case)
  also have "\<dots> = Some (of_nat (unat c))" by (simp only: hex4_nat)
  finally show ?thesis by simp
qed


lemma parse_chars_quote: "parse_chars (DQUOTE # cs) = Parsed [] cs"
  by (subst parse_chars.simps) simp

lemma parse_chars_unit:
  "c \<noteq> DQUOTE \<Longrightarrow> next_unit (c # cs) = Some (u, rest) \<Longrightarrow>
     parse_chars (c # cs) = prepend u (parse_chars rest)"
  by (subst parse_chars.simps) simp

lemma next_unit_literal:
  "c \<noteq> BACKSLASH \<Longrightarrow> \<not> c < 0x20 \<Longrightarrow> next_unit (c # cs) = Some (c, cs)"
  by (simp add: next_unit_def)

lemma next_unit_unicode_escape: "next_unit (unicode_escape c @ rest) = Some (c, rest)"
  by (simp add: next_unit_def unicode_escape_def parse_hex4_escape)

lemma next_unit_quote_unit: "next_unit (quote_unit c @ rest) = Some (c, rest)"
proof (cases "c = 0x08 \<or> c = 0x09 \<or> c = 0x0A \<or> c = 0x0C \<or> c = 0x0D \<or> c = DQUOTE \<or>
      c = BACKSLASH")
  case True
  then show ?thesis by (auto simp: quote_unit_def next_unit_def unescape_def)
next
  case plain: False
  show ?thesis
  proof (cases "c < 0x20 \<or> is_high_surrogate c \<or> is_low_surrogate c")
    case True
    with plain have "quote_unit c = unicode_escape c" by (simp add: quote_unit_def)
    then show ?thesis by (simp only: next_unit_unicode_escape)
  next
    case False
    with plain have "quote_unit c = [c]" by (simp add: quote_unit_def)
    moreover from plain False have "c \<noteq> BACKSLASH" "\<not> c < 0x20" by simp_all
    ultimately show ?thesis by (simp add: next_unit_literal)
  qed
qed

lemma quote_unit_head: "\<exists>x w. quote_unit c = x # w \<and> x \<noteq> DQUOTE"
  by (simp add: quote_unit_def unicode_escape_def)

lemma parse_chars_quote_unit:
  "parse_chars (quote_unit c @ rest) = prepend c (parse_chars rest)"
proof -
  obtain x w where q: "quote_unit c = x # w" and x: "x \<noteq> DQUOTE"
    using quote_unit_head by blast
  have "next_unit (x # w @ rest) = Some (c, rest)"
    using next_unit_quote_unit [of c rest] by (simp add: q)
  with x have "parse_chars (x # w @ rest) = prepend c (parse_chars rest)"
    by (rule parse_chars_unit)
  then show ?thesis by (simp add: q)
qed

lemma surrogate_literal:
  "is_high_surrogate c \<or> is_low_surrogate c \<Longrightarrow> c \<noteq> DQUOTE \<and> c \<noteq> BACKSLASH \<and> \<not> c < 0x20"
  by (auto simp: is_high_surrogate_def is_low_surrogate_def word_le_nat_alt word_less_nat_alt)

lemma parse_chars_surrogate:
  "is_high_surrogate c \<or> is_low_surrogate c \<Longrightarrow>
     parse_chars (c # cs) = prepend c (parse_chars cs)"
proof -
  assume "is_high_surrogate c \<or> is_low_surrogate c"
  then have c: "c \<noteq> DQUOTE" "c \<noteq> BACKSLASH" "\<not> c < 0x20"
    by (simp_all add: surrogate_literal)
  then have "next_unit (c # cs) = Some (c, cs)" by (simp add: next_unit_literal)
  with c(1) show ?thesis by (rule parse_chars_unit)
qed

lemma parse_chars_quote_units:
  "parse_chars (quote_units s @ DQUOTE # rest) = Parsed s rest"
proof (induction s rule: quote_units.induct)
  case 1
  show ?case by (simp add: parse_chars_quote)
next
  case (2 c)
  show ?case by (simp add: parse_chars_quote_unit parse_chars_quote prepend_def)
next
  case (3 c d cs)
  show ?case
  proof (cases "is_high_surrogate c \<and> is_low_surrogate d")
    case True
    from 3(1) [OF True] have "parse_chars (quote_units cs @ DQUOTE # rest) = Parsed cs rest" .
    moreover from True have "quote_units (c # d # cs) = c # d # quote_units cs"
      by simp
    ultimately show ?thesis using True by (simp add: parse_chars_surrogate prepend_def)
  next
    case False
    from 3(2) [OF False]
    have "parse_chars (quote_units (d # cs) @ DQUOTE # rest) = Parsed (d # cs) rest" .
    moreover have "quote_units (c # d # cs) = quote_unit c @ quote_units (d # cs)"
      by (simp only: quote_units.simps False if_False)
    ultimately show ?thesis by (simp add: parse_chars_quote_unit prepend_def)
  qed
qed

lemma skip_ws_Cons: "\<not> is_json_ws c \<Longrightarrow> skip_ws (c # cs) = c # cs"
  by (simp add: skip_ws_def)

lemma parse_value_string:
  "parse_value (Suc n) (QuoteJSONString s @ rest) = Parsed (JStr s) rest"
  by (simp add: QuoteJSONString_def skip_ws_Cons is_json_ws_def parse_chars_quote_units)

lemma parse_value_bool:
  "parse_value (Suc n) (JSON_stringify (JBool b) @ rest) = Parsed (JBool b) rest"
  by (cases b) (simp_all add: str_def skip_ws_Cons is_json_ws_def starts_with_def)

lemma parse_members_comma:
  assumes "parse_value n body = Parsed v (COMMA # after)"
  shows "parse_members (Suc n) acc (QuoteJSONString k @ COLON # body) =
    parse_members n (AList.update k v acc) after"
  using assms
  by (simp add: QuoteJSONString_def skip_ws_Cons is_json_ws_def parse_chars_quote_units)

lemma parse_members_brace:
  assumes "parse_value n body = Parsed v (RBRACE # after)"
  shows "parse_members (Suc n) acc (QuoteJSONString k @ COLON # body) =
    Parsed (AList.update k v acc) after"
  using assms
  by (simp add: QuoteJSONString_def skip_ws_Cons is_json_ws_def parse_chars_quote_units)

lemma parse_elements_comma:
  assumes "parse_value n body = Parsed v (COMMA # after)"
  shows "parse_elements (Suc n) acc body = parse_elements n (acc @ [v]) after"
  using assms by (simp add: skip_ws_Cons is_json_ws_def)

lemma parse_elements_bracket:
  assumes "parse_value n body = Parsed v (RBRACKET # after)"
  shows "parse_elements (Suc n) acc body = Parsed (acc @ [v]) after"
  using assms by (simp add: skip_ws_Cons is_json_ws_def)

lemma stringify_task: "JSON_stringify (task_json t) = LBRACE # task_members t"
  by (simp add: task_json_def task_members_def)

lemma task_members_head: "\<exists>u. task_members t = DQUOTE # u"
  by (simp add: task_members_def QuoteJSONString_def)

lemma keys_distinct:
  "str ''id'' \<noteq> str ''text''" "str ''id'' \<noteq> str ''checked''" "str ''text'' \<noteq> str ''checked''"
  by (simp_all add: str_def)

lemma parse_task_members:
  "parse_members (Suc (Suc (Suc (Suc n)))) [] (task_members t @ rest) =
     Parsed [(str ''id'', JStr (task_id t)), (str ''text'', JStr (task_text t)),
             (str ''checked'', JBool (task_checked t))] rest"
proof -
  let ?c = "QuoteJSONString (str ''checked'') @ COLON #
     JSON_stringify (JBool (task_checked t)) @ RBRACE # rest"
  let ?b = "QuoteJSONString (str ''text'') @ COLON # QuoteJSONString (task_text t) @ COMMA # ?c"
  have "parse_value (Suc n) (JSON_stringify (JBool (task_checked t)) @ RBRACE # rest) =
      Parsed (JBool (task_checked t)) (RBRACE # rest)"
    by (rule parse_value_bool)
  then have c: "parse_members (Suc (Suc n)) acc ?c =
      Parsed (AList.update (str ''checked'') (JBool (task_checked t)) acc) rest" for acc
    by (rule parse_members_brace)
  have "parse_value (Suc (Suc n)) (QuoteJSONString (task_text t) @ COMMA # ?c) =
      Parsed (JStr (task_text t)) (COMMA # ?c)"
    by (rule parse_value_string)
  then have b: "parse_members (Suc (Suc (Suc n))) acc ?b =
      parse_members (Suc (Suc n)) (AList.update (str ''text'') (JStr (task_text t)) acc) ?c" for acc
    by (rule parse_members_comma)
  have "parse_value (Suc (Suc (Suc n))) (QuoteJSONString (task_id t) @ COMMA # ?b) =
      Parsed (JStr (task_id t)) (COMMA # ?b)"
    by (rule parse_value_string)
  then have a: "parse_members (Suc (Suc (Suc (Suc n)))) acc
      (QuoteJSONString (str ''id'') @ COLON # QuoteJSONString (task_id t) @ COMMA # ?b) =
      parse_members (Suc (Suc (Suc n))) (AList.update (str ''id'') (JStr (task_id t)) acc) ?b" for acc
    by (rule parse_members_comma)
  have "task_members t @ rest =
      QuoteJSONString (str ''id'') @ COLON # QuoteJSONString (task_id t) @ COMMA # ?b"
    by (simp add: task_members_def)
  then show ?thesis
    by (simp only: a b c) (simp add: keys_distinct)
qed

lemma parse_value_object:
  "parse_value (Suc n) (LBRACE # DQUOTE # s) =
     and_then (parse_members n [] (DQUOTE # s)) (\<lambda>ms rest. Parsed (JObj ms) rest)"
  by (simp add: skip_ws_Cons is_json_ws_def del: parse_members.simps)

lemma parse_value_task:
  assumes "5 \<le> n"
  shows "parse_value n (JSON_stringify (task_json t) @ rest) = Parsed (task_json t) rest"
proof -
  from assms have "n = Suc (Suc (Suc (Suc (Suc (n - 5)))))" by simp
  then obtain m where n: "n = Suc (Suc (Suc (Suc (Suc m))))" ..
  obtain u where u: "task_members t = DQUOTE # u"
    using task_members_head by blast
  have e: "DQUOTE # u @ rest = task_members t @ rest" by (simp add: u)
  have "JSON_stringify (task_json t) @ rest = LBRACE # DQUOTE # u @ rest"
    by (simp add: stringify_task u)
  then have "parse_value n (JSON_stringify (task_json t) @ rest) =
      and_then (parse_members (Suc (Suc (Suc (Suc m)))) [] (DQUOTE # u @ rest))
        (\<lambda>ms rest. Parsed (JObj ms) rest)"
    by (simp only: n parse_value_object)
  then show ?thesis
    by (simp only: e parse_task_members and_then.simps task_json_def)
qed


lemma commas_Cons: "ys \<noteq> [] \<Longrightarrow> commas (x # ys) = x @ COMMA # commas ys"
  by (cases ys) simp_all

lemma length_commas: "\<forall>x \<in> set xs. x \<noteq> [] \<Longrightarrow> length xs \<le> length (commas xs)"
proof (induction xs)
  case Nil
  show ?case by simp
next
  case (Cons x xs)
  then have x: "1 \<le> length x" by (cases x) simp_all
  show ?case
  proof (cases "xs = []")
    case True
    with x show ?thesis by simp
  next
    case False
    with Cons x show ?thesis by (simp add: commas_Cons)
  qed
qed

lemma parse_elements_tasks:
  "ts \<noteq> [] \<Longrightarrow> length ts + 5 \<le> n \<Longrightarrow>
     parse_elements n acc
       (commas (map (\<lambda>t. JSON_stringify (task_json t)) ts) @ RBRACKET # rest) =
     Parsed (acc @ map task_json ts) rest"
proof (induction ts arbitrary: n acc)
  case Nil
  then show ?case by simp
next
  case (Cons t ts)
  from Cons.prems(2) have "n = Suc (n - 1)" by simp
  then obtain m where n: "n = Suc m" ..
  with Cons.prems(2) have m: "5 \<le> m" "length ts + 5 \<le> m" by simp_all
  show ?case
  proof (cases "ts = []")
    case True
    have "parse_value m (JSON_stringify (task_json t) @ RBRACKET # rest) =
        Parsed (task_json t) (RBRACKET # rest)"
      using m(1) by (rule parse_value_task)
    then have "parse_elements (Suc m) acc (JSON_stringify (task_json t) @ RBRACKET # rest) =
        Parsed (acc @ [task_json t]) rest"
      by (rule parse_elements_bracket)
    with True n show ?thesis by simp
  next
    case False
    let ?next = "commas (map (\<lambda>t. JSON_stringify (task_json t)) ts) @ RBRACKET # rest"
    have "parse_value m (JSON_stringify (task_json t) @ COMMA # ?next) =
        Parsed (task_json t) (COMMA # ?next)"
      using m(1) by (rule parse_value_task)
    then have "parse_elements (Suc m) acc (JSON_stringify (task_json t) @ COMMA # ?next) =
        parse_elements m (acc @ [task_json t]) ?next"
      by (rule parse_elements_comma)
    also have "\<dots> = Parsed ((acc @ [task_json t]) @ map task_json ts) rest"
      using False m(2) by (rule Cons.IH)
    finally show ?thesis using False n by (simp add: commas_Cons)
  qed
qed

lemma parse_value_array:
  "parse_value (Suc n) (LBRACKET # LBRACE # s) =
     and_then (parse_elements n [] (LBRACE # s)) (\<lambda>vs rest. Parsed (JArr vs) rest)"
  by (simp add: skip_ws_Cons is_json_ws_def del: parse_elements.simps)

lemma parse_value_empty_array: "parse_value (Suc n) (LBRACKET # RBRACKET # s) = Parsed (JArr []) s"
  by (simp add: skip_ws_Cons is_json_ws_def)

lemma stringify_tasks:
  "JSON_stringify (tasks_json ts) =
     LBRACKET # commas (map (\<lambda>t. JSON_stringify (task_json t)) ts) @ [RBRACKET]"
  by (simp add: tasks_json_def comp_def)

lemma commas_tasks_head:
  "ts \<noteq> [] \<Longrightarrow> \<exists>u. commas (map (\<lambda>t. JSON_stringify (task_json t)) ts) = LBRACE # u"
  by (cases ts) (simp, rename_tac t ts', case_tac "ts' = []", simp_all add: stringify_task commas_Cons)

lemma parse_value_tasks:
  assumes "length ts + 6 \<le> n"
  shows "parse_value n (JSON_stringify (tasks_json ts) @ rest) = Parsed (tasks_json ts) rest"
proof -
  from assms have "n = Suc (n - 1)" by simp
  then obtain m where n: "n = Suc m" ..
  with assms have m: "length ts + 5 \<le> m" by simp
  show ?thesis
  proof (cases "ts = []")
    case True
    then show ?thesis by (simp only: stringify_tasks n)
        (simp add: parse_value_empty_array tasks_json_def del: parse_value.simps)
  next
    case False
    then obtain u where u: "commas (map (\<lambda>t. JSON_stringify (task_json t)) ts) = LBRACE # u"
      using commas_tasks_head by blast
    have e: "LBRACE # u @ RBRACKET # rest =
        commas (map (\<lambda>t. JSON_stringify (task_json t)) ts) @ RBRACKET # rest"
      by (simp add: u)
    have "JSON_stringify (tasks_json ts) @ rest = LBRACKET # LBRACE # u @ RBRACKET # rest"
      by (simp add: stringify_tasks u)
    then have "parse_value n (JSON_stringify (tasks_json ts) @ rest) =
        and_then (parse_elements m [] (LBRACE # u @ RBRACKET # rest))
          (\<lambda>vs rest. Parsed (JArr vs) rest)"
      by (simp only: n parse_value_array)
    then show ?thesis
      by (simp only: e parse_elements_tasks [OF False m] and_then.simps tasks_json_def append_Nil)
  qed
qed

lemma JSON_parse_tasks: "JSON_parse (JSON_stringify (tasks_json ts)) = Inr (tasks_json ts)"
proof (cases "ts = []")
  case True
  have "parse_value (Suc 4) [LBRACKET, RBRACKET] = Parsed (JArr []) []"
    by (rule parse_value_empty_array)
  with True show ?thesis
    by (simp add: JSON_parse_def tasks_json_def skip_ws_def del: parse_value.simps)
next
  case False
  let ?s = "JSON_stringify (tasks_json ts)"
  have "\<forall>x \<in> set (map (\<lambda>t. JSON_stringify (task_json t)) ts). x \<noteq> []"
    by (simp add: stringify_task)
  then have "length (map (\<lambda>t. JSON_stringify (task_json t)) ts)
      \<le> length (commas (map (\<lambda>t. JSON_stringify (task_json t)) ts))"
    by (rule length_commas)
  then have "length ts + 2 \<le> length ?s" by (simp add: stringify_tasks)
  moreover from False have "1 \<le> length ts" by (cases ts) simp_all
  ultimately have "length ts + 6 \<le> 2 * length ?s + 1" by simp
  then have "parse_value (2 * length ?s + 1) (?s @ []) = Parsed (tasks_json ts) []"
    by (rule parse_value_tasks)
  then show ?thesis by (simp add: JSON_parse_def skip_ws_def del: parse_value.simps)
qed

lemma task_json_inj: "task_json a = task_json b \<Longrightarrow> a = b"
  by (simp add: task_json_def)

lemma tasks_json_inj: "tasks_json a = tasks_json b \<Longrightarrow> a = b"
proof -
  assume "tasks_json a = tasks_json b"
  then have "map task_json a = map task_json b" by (simp add: tasks_json_def)
  moreover have "inj task_json" by (rule injI) (rule task_json_inj)
  ultimately show ?thesis by (simp add: inj_map_eq_map)
qed

lemma is_tasks_json_tasks: "is_tasks_json (tasks_json ts)"
  by (induction ts) (simp_all add: is_tasks_json_def tasks_json_def is_task_json_def task_json_def
      keys_distinct keys_distinct [symmetric])

lemma stored_text_example:
  \<open>JSON_stringify (tasks_json (tasks two_tasks)) =
     str ''[{"id":"1","text":"buy milk","checked":false},{"id":"2","text":"walk dog","checked":true}]''\<close>
  by code_simp


section \<open>The fuel of the parser\<close>

text \<open>
  No call of the descent gives back more text than it was given, and each call that
  follows another has lost a character to it. So the fuel that \<open>JSON_parse\<close> sets is
  never used up: \<open>Inl\<close> from \<open>JSON_parse\<close> is a SyntaxError of the text.
\<close>

lemma and_then_Parsed:
  "and_then p f = Parsed y r \<longleftrightarrow> (\<exists>x r'. p = Parsed x r' \<and> f x r' = Parsed y r)"
  by (cases p) simp_all

lemma and_then_OutOfFuel:
  "and_then p f = OutOfFuel \<longleftrightarrow> p = OutOfFuel \<or> (\<exists>x r'. p = Parsed x r' \<and> f x r' = OutOfFuel)"
  by (cases p) simp_all

lemma skip_ws_ConsD: "skip_ws s = c # cs \<Longrightarrow> length cs < length s"
proof -
  assume "skip_ws s = c # cs"
  then have "length (c # cs) \<le> length s"
    unfolding skip_ws_def by (metis length_dropWhile_le)
  then show ?thesis by simp
qed

lemma prepend_OutOfFuel: "prepend u p = OutOfFuel \<longleftrightarrow> p = OutOfFuel"
  by (cases p) (simp_all add: prepend_def)

lemma prepend_Parsed: "prepend u p = Parsed t r \<longleftrightarrow> (\<exists>t'. p = Parsed t' r \<and> t = u # t')"
  by (cases p) (auto simp: prepend_def)

lemma parse_chars_no_fuel: "parse_chars s \<noteq> OutOfFuel"
proof (induction s rule: parse_chars.induct)
  case (1 s)
  show ?case
  proof (cases s)
    case Nil
    then show ?thesis by (subst parse_chars.simps) simp
  next
    case (Cons c cs)
    show ?thesis
    proof (cases "c = DQUOTE")
      case True
      with Cons show ?thesis by (simp add: parse_chars_quote)
    next
      case False
      show ?thesis
      proof (cases "next_unit s")
        case None
        with Cons False show ?thesis by (subst parse_chars.simps) simp
      next
        case (Some p)
        obtain u rest where p: "p = (u, rest)" by (cases p)
        from 1 [OF Cons False Some p [symmetric]] have "parse_chars rest \<noteq> OutOfFuel" .
        moreover from Cons False Some p have "parse_chars s = prepend u (parse_chars rest)"
          by (simp add: parse_chars_unit)
        ultimately show ?thesis by (simp add: prepend_OutOfFuel)
      qed
    qed
  qed
qed

lemma parse_chars_length: "parse_chars s = Parsed t r \<Longrightarrow> length r < length s"
proof (induction s arbitrary: t rule: parse_chars.induct)
  case (1 s)
  show ?case
  proof (cases s)
    case Nil
    with 1(2) show ?thesis by (simp add: parse_chars.simps)
  next
    case (Cons c cs)
    show ?thesis
    proof (cases "c = DQUOTE")
      case True
      with Cons 1(2) show ?thesis by (simp add: parse_chars_quote)
    next
      case False
      show ?thesis
      proof (cases "next_unit s")
        case None
        with Cons False 1(2) show ?thesis by (simp add: parse_chars.simps [of "c # cs"])
      next
        case (Some p)
        obtain u rest where p: "p = (u, rest)" by (cases p)
        from Cons False Some p have "parse_chars s = prepend u (parse_chars rest)"
          by (simp add: parse_chars_unit)
        with 1(2) obtain t' where "parse_chars rest = Parsed t' r"
          by (auto simp: prepend_Parsed)
        with 1(1) [OF Cons False Some p [symmetric]] have "length r < length rest" by blast
        moreover from Some p have "length rest < length s" by (simp add: next_unit_length)
        ultimately show ?thesis by simp
      qed
    qed
  qed
qed

lemma parse_number_no_fuel: "parse_number s \<noteq> OutOfFuel"
  by (simp add: parse_number_def Let_def)

lemma parse_number_length: "parse_number s = Parsed t r \<Longrightarrow> length r \<le> length s"
  by (auto simp: parse_number_def Let_def split: if_splits)

lemma parse_value_Suc_length:
  assumes m: "\<forall>acc s ms r. parse_members n acc s = Parsed ms r \<longrightarrow> length r \<le> length s"
    and e: "\<forall>acc s vs r. parse_elements n acc s = Parsed vs r \<longrightarrow> length r \<le> length s"
    and p: "parse_value (Suc n) s = Parsed v r"
  shows "length r \<le> length s"
proof (cases "skip_ws s")
  case Nil
  with p show ?thesis by simp
next
  case (Cons c cs)
  then have cs: "length cs < length s" by (rule skip_ws_ConsD)
  consider (obj) "c = LBRACE" | (arr) "c = LBRACKET" | (string) "c = DQUOTE"
    | (other) "c \<noteq> LBRACE" "c \<noteq> LBRACKET" "c \<noteq> DQUOTE"
    by blast
  then show ?thesis
  proof cases
    case obj
    show ?thesis
    proof (cases "skip_ws cs")
      case Nil
      with p Cons obj show ?thesis by simp
    next
      case inner: (Cons d ds)
      then have ds: "length ds < length cs" by (rule skip_ws_ConsD)
      show ?thesis
      proof (cases "d = RBRACE")
        case True
        with p Cons obj inner have "r = ds" by simp
        with ds cs show ?thesis by simp
      next
        case False
        with p Cons obj inner obtain ms where "parse_members n [] (d # ds) = Parsed ms r"
          by (auto simp: and_then_Parsed)
        then have "length r \<le> length (d # ds)" by (rule m [rule_format])
        with ds cs show ?thesis by simp
      qed
    qed
  next
    case arr
    show ?thesis
    proof (cases "skip_ws cs")
      case Nil
      with p Cons arr show ?thesis by simp
    next
      case inner: (Cons d ds)
      then have ds: "length ds < length cs" by (rule skip_ws_ConsD)
      show ?thesis
      proof (cases "d = RBRACKET")
        case True
        with p Cons arr inner have "r = ds" by simp
        with ds cs show ?thesis by simp
      next
        case False
        with p Cons arr inner obtain vs where "parse_elements n [] (d # ds) = Parsed vs r"
          by (auto simp: and_then_Parsed)
        then have "length r \<le> length (d # ds)" by (rule e [rule_format])
        with ds cs show ?thesis by simp
      qed
    qed
  next
    case string
    with p Cons obtain t where "parse_chars cs = Parsed t r"
      by (auto simp: and_then_Parsed)
    then have "length r < length cs" by (rule parse_chars_length)
    with cs show ?thesis by simp
  next
    case other
    from p Cons other have
      "r = drop 4 (c # cs) \<or> r = drop 5 (c # cs) \<or> (\<exists>t. parse_number (c # cs) = Parsed t r)"
      by (auto simp: and_then_Parsed split: if_splits)
    then have "length r \<le> length (c # cs)"
      by (auto dest: parse_number_length)
    with cs show ?thesis by simp
  qed
qed


lemma parse_elements_Suc_length:
  assumes v: "\<forall>s v r. parse_value n s = Parsed v r \<longrightarrow> length r \<le> length s"
    and e: "\<forall>acc s vs r. parse_elements n acc s = Parsed vs r \<longrightarrow> length r \<le> length s"
    and p: "parse_elements (Suc n) acc s = Parsed vs r"
  shows "length r \<le> length s"
proof -
  from p obtain x s1 where x: "parse_value n s = Parsed x s1"
    and k: "(case skip_ws s1 of [] \<Rightarrow> SyntaxError
             | c # cs \<Rightarrow> if c = COMMA then parse_elements n (acc @ [x]) cs
                        else if c = RBRACKET then Parsed (acc @ [x]) cs else SyntaxError)
            = Parsed vs r"
    by (auto simp: and_then_Parsed)
  from x have s1: "length s1 \<le> length s" by (rule v [rule_format])
  show ?thesis
  proof (cases "skip_ws s1")
    case Nil
    with k show ?thesis by simp
  next
    case (Cons c cs)
    then have cs: "length cs < length s1" by (rule skip_ws_ConsD)
    from k Cons have "parse_elements n (acc @ [x]) cs = Parsed vs r \<or> r = cs"
      by (auto split: if_splits)
    then have "length r \<le> length cs" by (auto dest: e [rule_format])
    with cs s1 show ?thesis by simp
  qed
qed

lemma parse_members_Suc_length:
  assumes v: "\<forall>s v r. parse_value n s = Parsed v r \<longrightarrow> length r \<le> length s"
    and m: "\<forall>acc s ms r. parse_members n acc s = Parsed ms r \<longrightarrow> length r \<le> length s"
    and p: "parse_members (Suc n) acc s = Parsed ms r"
  shows "length r \<le> length s"
proof (cases "skip_ws s")
  case Nil
  with p show ?thesis by simp
next
  case (Cons q s1)
  then have s1: "length s1 < length s" by (rule skip_ws_ConsD)
  from p Cons have q: "q = DQUOTE" by (auto split: if_splits)
  with p Cons obtain k s2 where k: "parse_chars s1 = Parsed k s2"
    and a: "(case skip_ws s2 of [] \<Rightarrow> SyntaxError
             | c # s3 \<Rightarrow>
                 if c = COLON then
                   and_then (parse_value n s3) (\<lambda>v s4.
                     case skip_ws s4 of [] \<Rightarrow> SyntaxError
                     | d # s5 \<Rightarrow>
                         if d = COMMA then parse_members n (AList.update k v acc) s5
                         else if d = RBRACE then Parsed (AList.update k v acc) s5
                         else SyntaxError)
                 else SyntaxError) = Parsed ms r"
    by (auto simp: and_then_Parsed)
  from k have s2: "length s2 < length s1" by (rule parse_chars_length)
  show ?thesis
  proof (cases "skip_ws s2")
    case Nil
    with a show ?thesis by simp
  next
    case colon: (Cons c s3)
    then have s3: "length s3 < length s2" by (rule skip_ws_ConsD)
    from a colon obtain x s4 where x: "parse_value n s3 = Parsed x s4"
      and b: "(case skip_ws s4 of [] \<Rightarrow> SyntaxError
               | d # s5 \<Rightarrow>
                   if d = COMMA then parse_members n (AList.update k x acc) s5
                   else if d = RBRACE then Parsed (AList.update k x acc) s5
                   else SyntaxError) = Parsed ms r"
      by (auto simp: and_then_Parsed split: if_splits)
    from x have s4: "length s4 \<le> length s3" by (rule v [rule_format])
    show ?thesis
    proof (cases "skip_ws s4")
      case Nil
      with b show ?thesis by simp
    next
      case sep: (Cons d s5)
      then have s5: "length s5 < length s4" by (rule skip_ws_ConsD)
      from b sep have "parse_members n (AList.update k x acc) s5 = Parsed ms r \<or> r = s5"
        by (auto split: if_splits)
      then have "length r \<le> length s5" by (auto dest: m [rule_format])
      with s5 s4 s3 s2 s1 show ?thesis by simp
    qed
  qed
qed

lemma parse_length:
  "(\<forall>s v r. parse_value n s = Parsed v r \<longrightarrow> length r \<le> length s) \<and>
   (\<forall>acc s vs r. parse_elements n acc s = Parsed vs r \<longrightarrow> length r \<le> length s) \<and>
   (\<forall>acc s ms r. parse_members n acc s = Parsed ms r \<longrightarrow> length r \<le> length s)"
proof (induction n)
  case 0
  show ?case by simp
next
  case (Suc n)
  then have v: "\<forall>s v r. parse_value n s = Parsed v r \<longrightarrow> length r \<le> length s"
    and e: "\<forall>acc s vs r. parse_elements n acc s = Parsed vs r \<longrightarrow> length r \<le> length s"
    and m: "\<forall>acc s ms r. parse_members n acc s = Parsed ms r \<longrightarrow> length r \<le> length s"
    by simp_all
  show ?case
    using parse_value_Suc_length [OF m e] parse_elements_Suc_length [OF v e]
      parse_members_Suc_length [OF v m]
    by blast
qed

lemma parse_value_length: "parse_value n s = Parsed v r \<Longrightarrow> length r \<le> length s"
  using parse_length [of n] by blast

lemma parse_value_Suc_fuel:
  assumes m: "\<forall>acc s. 2 * length s + 2 \<le> n \<longrightarrow> parse_members n acc s \<noteq> OutOfFuel"
    and e: "\<forall>acc s. 2 * length s + 2 \<le> n \<longrightarrow> parse_elements n acc s \<noteq> OutOfFuel"
    and f: "2 * length s \<le> n"
  shows "parse_value (Suc n) s \<noteq> OutOfFuel"
proof (cases "skip_ws s")
  case Nil
  then show ?thesis by simp
next
  case (Cons c cs)
  then have cs: "length cs < length s" by (rule skip_ws_ConsD)
  consider (obj) "c = LBRACE" | (arr) "c = LBRACKET" | (string) "c = DQUOTE"
    | (other) "c \<noteq> LBRACE" "c \<noteq> LBRACKET" "c \<noteq> DQUOTE"
    by blast
  then show ?thesis
  proof cases
    case obj
    show ?thesis
    proof (cases "skip_ws cs")
      case Nil
      with Cons obj show ?thesis by simp
    next
      case inner: (Cons d ds)
      then have "length ds < length cs" by (rule skip_ws_ConsD)
      with cs f have "2 * length (d # ds) + 2 \<le> n" by simp
      then have "parse_members n [] (d # ds) \<noteq> OutOfFuel" by (rule m [rule_format])
      with Cons obj inner show ?thesis by (simp add: and_then_OutOfFuel)
    qed
  next
    case arr
    show ?thesis
    proof (cases "skip_ws cs")
      case Nil
      with Cons arr show ?thesis by simp
    next
      case inner: (Cons d ds)
      then have "length ds < length cs" by (rule skip_ws_ConsD)
      with cs f have "2 * length (d # ds) + 2 \<le> n" by simp
      then have "parse_elements n [] (d # ds) \<noteq> OutOfFuel" by (rule e [rule_format])
      with Cons arr inner show ?thesis by (simp add: and_then_OutOfFuel)
    qed
  next
    case string
    with Cons show ?thesis by (simp add: and_then_OutOfFuel parse_chars_no_fuel)
  next
    case other
    with Cons show ?thesis by (simp add: and_then_OutOfFuel parse_number_no_fuel)
  qed
qed

lemma parse_elements_Suc_fuel:
  assumes v: "\<forall>s. 2 * length s + 1 \<le> n \<longrightarrow> parse_value n s \<noteq> OutOfFuel"
    and e: "\<forall>acc s. 2 * length s + 2 \<le> n \<longrightarrow> parse_elements n acc s \<noteq> OutOfFuel"
    and f: "2 * length s + 1 \<le> n"
  shows "parse_elements (Suc n) acc s \<noteq> OutOfFuel"
proof
  assume "parse_elements (Suc n) acc s = OutOfFuel"
  moreover from f have "parse_value n s \<noteq> OutOfFuel" by (rule v [rule_format])
  ultimately obtain x s1 where x: "parse_value n s = Parsed x s1"
    and k: "(case skip_ws s1 of [] \<Rightarrow> SyntaxError
             | c # cs \<Rightarrow> if c = COMMA then parse_elements n (acc @ [x]) cs
                        else if c = RBRACKET then Parsed (acc @ [x]) cs else SyntaxError)
            = OutOfFuel"
    by (auto simp: and_then_OutOfFuel)
  from x have s1: "length s1 \<le> length s" by (rule parse_value_length)
  show False
  proof (cases "skip_ws s1")
    case Nil
    with k show ?thesis by simp
  next
    case (Cons c cs)
    then have "length cs < length s1" by (rule skip_ws_ConsD)
    with s1 f have "2 * length cs + 2 \<le> n" by simp
    then have "parse_elements n (acc @ [x]) cs \<noteq> OutOfFuel" by (rule e [rule_format])
    with k Cons show ?thesis by (simp split: if_splits)
  qed
qed

lemma parse_members_Suc_fuel:
  assumes v: "\<forall>s. 2 * length s + 1 \<le> n \<longrightarrow> parse_value n s \<noteq> OutOfFuel"
    and m: "\<forall>acc s. 2 * length s + 2 \<le> n \<longrightarrow> parse_members n acc s \<noteq> OutOfFuel"
    and f: "2 * length s + 1 \<le> n"
  shows "parse_members (Suc n) acc s \<noteq> OutOfFuel"
proof
  assume p: "parse_members (Suc n) acc s = OutOfFuel"
  show False
  proof (cases "skip_ws s")
    case Nil
    with p show ?thesis by simp
  next
    case (Cons q s1)
    then have s1: "length s1 < length s" by (rule skip_ws_ConsD)
    from p Cons have q: "q = DQUOTE" by (auto split: if_splits)
    with p Cons parse_chars_no_fuel [of s1] obtain k s2 where k: "parse_chars s1 = Parsed k s2"
      and a: "(case skip_ws s2 of [] \<Rightarrow> SyntaxError
               | c # s3 \<Rightarrow>
                   if c = COLON then
                     and_then (parse_value n s3) (\<lambda>v s4.
                       case skip_ws s4 of [] \<Rightarrow> SyntaxError
                       | d # s5 \<Rightarrow>
                           if d = COMMA then parse_members n (AList.update k v acc) s5
                           else if d = RBRACE then Parsed (AList.update k v acc) s5
                           else SyntaxError)
                   else SyntaxError) = OutOfFuel"
      by (auto simp: and_then_OutOfFuel)
    from k have s2: "length s2 < length s1" by (rule parse_chars_length)
    show ?thesis
    proof (cases "skip_ws s2")
      case Nil
      with a show ?thesis by simp
    next
      case colon: (Cons c s3)
      then have s3: "length s3 < length s2" by (rule skip_ws_ConsD)
      with s2 s1 f have "2 * length s3 + 1 \<le> n" by simp
      then have "parse_value n s3 \<noteq> OutOfFuel" by (rule v [rule_format])
      with a colon obtain x s4 where x: "parse_value n s3 = Parsed x s4"
        and b: "(case skip_ws s4 of [] \<Rightarrow> SyntaxError
                 | d # s5 \<Rightarrow>
                     if d = COMMA then parse_members n (AList.update k x acc) s5
                     else if d = RBRACE then Parsed (AList.update k x acc) s5
                     else SyntaxError) = OutOfFuel"
        by (auto simp: and_then_OutOfFuel split: if_splits)
      from x have s4: "length s4 \<le> length s3" by (rule parse_value_length)
      show ?thesis
      proof (cases "skip_ws s4")
        case Nil
        with b show ?thesis by simp
      next
        case sep: (Cons d s5)
        then have "length s5 < length s4" by (rule skip_ws_ConsD)
        with s4 s3 s2 s1 f have "2 * length s5 + 2 \<le> n" by simp
        then have "parse_members n (AList.update k x acc) s5 \<noteq> OutOfFuel"
          by (rule m [rule_format])
        with b sep show ?thesis by (simp split: if_splits)
      qed
    qed
  qed
qed

lemma parse_fuel:
  "(\<forall>s. 2 * length s + 1 \<le> n \<longrightarrow> parse_value n s \<noteq> OutOfFuel) \<and>
   (\<forall>acc s. 2 * length s + 2 \<le> n \<longrightarrow> parse_elements n acc s \<noteq> OutOfFuel) \<and>
   (\<forall>acc s. 2 * length s + 2 \<le> n \<longrightarrow> parse_members n acc s \<noteq> OutOfFuel)"
proof (induction n)
  case 0
  show ?case by simp
next
  case (Suc n)
  then have v: "\<forall>s. 2 * length s + 1 \<le> n \<longrightarrow> parse_value n s \<noteq> OutOfFuel"
    and e: "\<forall>acc s. 2 * length s + 2 \<le> n \<longrightarrow> parse_elements n acc s \<noteq> OutOfFuel"
    and m: "\<forall>acc s. 2 * length s + 2 \<le> n \<longrightarrow> parse_members n acc s \<noteq> OutOfFuel"
    by simp_all
  have "parse_value (Suc n) s \<noteq> OutOfFuel" if "2 * length s + 1 \<le> Suc n" for s
    using that by (intro parse_value_Suc_fuel [OF m e]) simp
  moreover have "parse_elements (Suc n) acc s \<noteq> OutOfFuel" if "2 * length s + 2 \<le> Suc n" for acc s
    using that by (intro parse_elements_Suc_fuel [OF v e]) simp
  moreover have "parse_members (Suc n) acc s \<noteq> OutOfFuel" if "2 * length s + 2 \<le> Suc n" for acc s
    using that by (intro parse_members_Suc_fuel [OF v m]) simp
  ultimately show ?case by blast
qed

lemma JSON_parse_fuel: "parse_value (2 * length s + 1) s \<noteq> OutOfFuel"
  using parse_fuel [of "2 * length s + 1"] by simp

lemma JSON_parse_Inl:
  "JSON_parse s = Inl e \<longleftrightarrow>
     e = JSONSyntaxError \<and>
     (parse_value (2 * length s + 1) s = SyntaxError \<or>
      (\<exists>v rest. parse_value (2 * length s + 1) s = Parsed v rest \<and> skip_ws rest \<noteq> []))"
  using JSON_parse_fuel [of s]
  by (cases "parse_value (2 * length s + 1) s") (auto simp: JSON_parse_def)


section \<open>Save, then load\<close>

text \<open>
  C4. For every list of tasks and every store that accepts the write and the read:
  after \<open>saveTasksToStorage\<close> of the list, \<open>loadTasksFromStorage\<close> (of a fresh
  instance, or of any other) sets \<open>tasks\<close> to the value of that list, and that value
  belongs to no other list: the same tasks in the same order with the same id, text
  and checked fields.
\<close>

theorem save_then_load:
  "\<not> failing st \<Longrightarrow>
     loadTasksFromStorage (saveTasksToStorage (tasks_json ts) st) current = tasks_json ts \<and>
     (\<forall>ts'. tasks_json ts' = tasks_json ts \<longrightarrow> ts' = ts)"
proof -
  assume ok: "\<not> failing st"
  let ?s = "JSON_stringify (tasks_json ts)"
  have "?s \<noteq> []" by (simp add: stringify_tasks)
  then have t: "truthy ?s" by (simp add: truthy_def)
  from ok have "AsyncStorage_getItem ''tasks'' (saveTasksToStorage (tasks_json ts) st) =
      Inr (Some ?s)"
    by (simp add: saveTasksToStorage_def AsyncStorage_setItem_def AsyncStorage_getItem_def)
  then have "loadTasksFromStorage (saveTasksToStorage (tasks_json ts) st) current = tasks_json ts"
    by (simp add: loadTasksFromStorage_def t JSON_parse_tasks)
  then show ?thesis using tasks_json_inj by blast
qed

theorem save_then_load_witness:
  "\<not> failing \<lparr>items = Map.empty, failing = False\<rparr> \<and>
   loadTasksFromStorage
     (saveTasksToStorage (tasks_json (tasks two_tasks)) \<lparr>items = Map.empty, failing = False\<rparr>)
     (tasks_json []) = tasks_json (tasks two_tasks)"
proof -
  have "\<not> failing \<lparr>items = Map.empty, failing = False\<rparr>" by simp
  with save_then_load [of "\<lparr>items = Map.empty, failing = False\<rparr>" "tasks two_tasks" "tasks_json []"]
  show ?thesis by blast
qed


section \<open>Load\<close>

text \<open>
  C2, as the code has it. \<open>loadTasksFromStorage\<close> leaves \<open>tasks\<close> as it is, which
  on a fresh instance is the empty list, when the read is rejected, when nothing is
  stored, when the stored string is empty and when \<open>JSON.parse\<close> throws on it; no
  exception leaves the function. A stored string that parses is installed as the new
  value of \<open>tasks\<close>, whatever its shape.
\<close>

theorem load_keeps_list:
  "(failing st \<longrightarrow> loadTasksFromStorage st current = current) \<and>
   (items st ''tasks'' = None \<longrightarrow> loadTasksFromStorage st current = current) \<and>
   (items st ''tasks'' = Some [] \<longrightarrow> loadTasksFromStorage st current = current) \<and>
   (items st ''tasks'' = Some s \<and> JSON_parse s = Inl e \<longrightarrow>
      loadTasksFromStorage st current = current) \<and>
   (\<not> failing st \<and> items st ''tasks'' = Some s \<and> s \<noteq> [] \<and> JSON_parse s = Inr v \<longrightarrow>
      loadTasksFromStorage st current = v)"
proof (cases "failing st")
  case True
  then have "AsyncStorage_getItem ''tasks'' st = Inl StorageError"
    by (simp add: AsyncStorage_getItem_def)
  then have "loadTasksFromStorage st current = current"
    by (simp add: loadTasksFromStorage_def)
  with True show ?thesis by simp
next
  case False
  then have get: "AsyncStorage_getItem ''tasks'' st = Inr (items st ''tasks'')"
    by (simp add: AsyncStorage_getItem_def)
  show ?thesis
  proof (cases "items st ''tasks''")
    case None
    with get have "loadTasksFromStorage st current = current"
      by (simp add: loadTasksFromStorage_def)
    with None False show ?thesis by simp
  next
    case (Some stored)
    with get have "loadTasksFromStorage st current =
        (if stored = [] then current
         else case JSON_parse stored of Inl e \<Rightarrow> current | Inr v \<Rightarrow> v)"
      by (simp add: loadTasksFromStorage_def truthy_def)
    with Some False show ?thesis by auto
  qed
qed

theorem load_keeps_list_witness:
  "failing \<lparr>items = Map.empty, failing = True\<rparr> \<and>
   loadTasksFromStorage \<lparr>items = Map.empty, failing = True\<rparr> (tasks_json []) = tasks_json [] \<and>
   items \<lparr>items = Map.empty, failing = False\<rparr> ''tasks'' = None \<and>
   loadTasksFromStorage \<lparr>items = Map.empty, failing = False\<rparr> (tasks_json []) = tasks_json [] \<and>
   items \<lparr>items = [''tasks'' \<mapsto> []], failing = False\<rparr> ''tasks'' = Some [] \<and>
   loadTasksFromStorage \<lparr>items = [''tasks'' \<mapsto> []], failing = False\<rparr> (tasks_json [])
     = tasks_json [] \<and>
   items \<lparr>items = [''tasks'' \<mapsto> str ''[1,''], failing = False\<rparr> ''tasks''
     = Some (str ''[1,'') \<and>
   JSON_parse (str ''[1,'') = Inl JSONSyntaxError \<and>
   loadTasksFromStorage \<lparr>items = [''tasks'' \<mapsto> str ''[1,''], failing = False\<rparr> (tasks_json [])
     = tasks_json [] \<and>
   \<not> failing \<lparr>items = [''tasks'' \<mapsto> str ''[]''], failing = False\<rparr> \<and>
   items \<lparr>items = [''tasks'' \<mapsto> str ''[]''], failing = False\<rparr> ''tasks''
     = Some (str ''[]'') \<and>
   str ''[]'' \<noteq> [] \<and>
   JSON_parse (str ''[]'') = Inr (JArr []) \<and>
   loadTasksFromStorage \<lparr>items = [''tasks'' \<mapsto> str ''[]''], failing = False\<rparr>
     (tasks_json (tasks two_tasks)) = JArr []"
proof -
  have a: "failing \<lparr>items = Map.empty, failing = True\<rparr>"
    "items \<lparr>items = Map.empty, failing = False\<rparr> ''tasks'' = None"
    "items \<lparr>items = [''tasks'' \<mapsto> []], failing = False\<rparr> ''tasks'' = Some []"
    "items \<lparr>items = [''tasks'' \<mapsto> str ''[1,''], failing = False\<rparr> ''tasks''
       = Some (str ''[1,'')"
    "\<not> failing \<lparr>items = [''tasks'' \<mapsto> str ''[]''], failing = False\<rparr>"
    "items \<lparr>items = [''tasks'' \<mapsto> str ''[]''], failing = False\<rparr> ''tasks''
       = Some (str ''[]'')"
    by simp_all
  have b: "JSON_parse (str ''[1,'') = Inl JSONSyntaxError" "JSON_parse (str ''[]'') = Inr (JArr [])"
    "str ''[]'' \<noteq> []"
    by code_simp+
  from load_keeps_list [of "\<lparr>items = Map.empty, failing = True\<rparr>" "tasks_json []"] a(1)
  have "loadTasksFromStorage \<lparr>items = Map.empty, failing = True\<rparr> (tasks_json []) = tasks_json []"
    by blast
  moreover
  from load_keeps_list [of "\<lparr>items = Map.empty, failing = False\<rparr>" "tasks_json []"] a(2)
  have "loadTasksFromStorage \<lparr>items = Map.empty, failing = False\<rparr> (tasks_json []) = tasks_json []"
    by blast
  moreover
  from load_keeps_list [of "\<lparr>items = [''tasks'' \<mapsto> []], failing = False\<rparr>" "tasks_json []"]
    a(3)
  have "loadTasksFromStorage \<lparr>items = [''tasks'' \<mapsto> []], failing = False\<rparr> (tasks_json [])
     = tasks_json []"
    by blast
  moreover
  from load_keeps_list [of "\<lparr>items = [''tasks'' \<mapsto> str ''[1,''], failing = False\<rparr>"
      "tasks_json []" "str ''[1,''" JSONSyntaxError] a(4) b(1)
  have "loadTasksFromStorage \<lparr>items = [''tasks'' \<mapsto> str ''[1,''], failing = False\<rparr> (tasks_json [])
     = tasks_json []"
    by blast
  moreover
  from load_keeps_list [of "\<lparr>items = [''tasks'' \<mapsto> str ''[]''], failing = False\<rparr>"
      "tasks_json (tasks two_tasks)" "str ''[]''" _ "JArr []"] a(5,6) b(2,3)
  have "loadTasksFromStorage \<lparr>items = [''tasks'' \<mapsto> str ''[]''], failing = False\<rparr>
     (tasks_json (tasks two_tasks)) = JArr []"
    by blast
  ultimately show ?thesis using a b by blast
qed

text \<open>
  C2 as the specification states it promises the empty list for a stored value that
  is not an array of tasks. The stored text \<open>[true]\<close> parses, is not an array of
  tasks, and becomes the value of \<open>tasks\<close>, which is then not the empty list.
\<close>

theorem load_other_shape_counterexample:
  "\<not> failing \<lparr>items = [''tasks'' \<mapsto> str ''[true]''], failing = False\<rparr> \<and>
   items \<lparr>items = [''tasks'' \<mapsto> str ''[true]''], failing = False\<rparr> ''tasks''
     = Some (str ''[true]'') \<and>
   JSON_parse (str ''[true]'') = Inr (JArr [JBool True]) \<and>
   \<not> is_tasks_json (JArr [JBool True]) \<and>
   loadTasksFromStorage \<lparr>items = [''tasks'' \<mapsto> str ''[true]''], failing = False\<rparr> (tasks_json [])
     = JArr [JBool True] \<and>
   JArr [JBool True] \<noteq> tasks_json []"
proof -
  have "JSON_parse (str ''[true]'') = Inr (JArr [JBool True])" by code_simp
  moreover have "str ''[true]'' \<noteq> []" by code_simp
  ultimately show ?thesis
    by (simp add: loadTasksFromStorage_def AsyncStorage_getItem_def truthy_def
        is_tasks_json_def is_task_json_def tasks_json_def)
qed

end
